theory Spec2Isabelle
  imports Main "HOL-Library.AList"
begin

section \<open>Values, exceptions and character classes\<close>

text \<open>
  A configuration value is a Python \<open>int\<close> (unbounded) or a \<open>str\<close>. Strings are lists of
  characters; a character stands for a code point below 256. The exceptions of the
  modelled functions are \<open>KeyError\<close> (a subscript on a dictionary with an absent key),
  \<open>TypeError\<close> (\<open>str + None\<close>, \<open>str + int\<close>) and the module's \<open>DistutilsPlatformError\<close>.
\<close>

datatype pyval = PInt int | PStr string

datatype exn = KeyError string | TypeError | DistutilsPlatformError string

type_synonym dict = "string \<rightharpoonup> pyval"

type_synonym environ = "string \<rightharpoonup> string"

definition ord_c :: "char \<Rightarrow> nat" where
  "ord_c c = of_char c"

definition newline :: char where
  "newline = CHR 0x0A"

definition is_upper :: "char \<Rightarrow> bool" where
  "is_upper c \<longleftrightarrow> 65 \<le> ord_c c \<and> ord_c c \<le> 90"

definition is_lower :: "char \<Rightarrow> bool" where
  "is_lower c \<longleftrightarrow> 97 \<le> ord_c c \<and> ord_c c \<le> 122"

definition is_digit :: "char \<Rightarrow> bool" where
  "is_digit c \<longleftrightarrow> 48 \<le> ord_c c \<and> ord_c c \<le> 57"

text \<open>The class \<open>[A-Za-z]\<close> (written \<open>[a-zA-Z]\<close> in one of the patterns).\<close>

definition is_alpha :: "char \<Rightarrow> bool" where
  "is_alpha c \<longleftrightarrow> is_upper c \<or> is_lower c"

text \<open>The class \<open>[A-Za-z0-9_]\<close>.\<close>

definition is_word :: "char \<Rightarrow> bool" where
  "is_word c \<longleftrightarrow> is_alpha c \<or> is_digit c \<or> c = CHR ''_''"

text \<open>
  White space as \<open>str.strip()\<close>, \<open>int()\<close> and the pattern \<open>\s\<close> on \<open>str\<close> see it, for code
  points below 256: TAB, LF, VT, FF, CR, FS, GS, RS, US, space, NEL and NBSP.
\<close>

definition is_space :: "char \<Rightarrow> bool" where
  "is_space c \<longleftrightarrow> (9 \<le> ord_c c \<and> ord_c c \<le> 13) \<or> (28 \<le> ord_c c \<and> ord_c c \<le> 32)
     \<or> ord_c c = 133 \<or> ord_c c = 160"

text \<open>\<open>s.strip()\<close>\<close>

definition strip :: "string \<Rightarrow> string" where
  "strip s = rev (dropWhile is_space (rev (dropWhile is_space s)))"

text \<open>
  \<open>int(s)\<close> in base ten: surrounding white space is skipped, then an optional sign and at
  least one decimal digit and nothing else; \<open>None\<close> is the \<open>ValueError\<close>.
\<close>

definition digits_val :: "string \<Rightarrow> nat" where
  "digits_val ds = foldl (\<lambda>a c. 10 * a + (ord_c c - 48)) 0 ds"

definition int_digits :: "string \<Rightarrow> nat option" where
  "int_digits ds = (if ds \<noteq> [] \<and> list_all is_digit ds then Some (digits_val ds) else None)"

definition py_int :: "string \<Rightarrow> int option" where
  "py_int s =
     (case strip s of
        [] \<Rightarrow> None
      | c # ds \<Rightarrow>
          if c = CHR ''-'' then map_option (\<lambda>n. - int n) (int_digits ds)
          else if c = CHR ''+'' then map_option int (int_digits ds)
          else map_option int (int_digits (c # ds)))"

text \<open>\<open>str(v)\<close> for a value of the dictionary.\<close>

fun str_nat :: "nat \<Rightarrow> string" where
  "str_nat n =
     (if n < 10 then [''0123456789'' ! n]
      else str_nat (n div 10) @ [''0123456789'' ! (n mod 10)])"

declare str_nat.simps [simp del]

definition py_str :: "pyval \<Rightarrow> string" where
  "py_str v =
     (case v of
        PStr s \<Rightarrow> s
      | PInt i \<Rightarrow> if i < 0 then CHR ''-'' # str_nat (nat (- i)) else str_nat (nat i))"

text \<open>
  The \<open>try: v = int(v) / except ValueError: pass\<close> idiom: the integer when the text parses
  as one, the text itself otherwise.
\<close>

definition int_or_str :: "string \<Rightarrow> pyval" where
  "int_or_str v = (case py_int v of Some i \<Rightarrow> PInt i | None \<Rightarrow> PStr v)"

section \<open>The regular expressions\<close>

text \<open>
  A match object is kept as \<open>(m.start(), m.end(), m.group(1))\<close>.

  \<open>match_var op cl s\<close> matches \<open>\$ op ([A-Za-z][A-Za-z0-9_]*) cl\<close> at the beginning of \<open>s\<close>
  and gives the end position and the name. The star is greedy and the closing bracket is
  not in the class, so the name is the longest run of class characters.
\<close>

type_synonym rematch = "nat \<times> nat \<times> string"

definition match_var :: "char \<Rightarrow> char \<Rightarrow> string \<Rightarrow> (nat \<times> string) option" where
  "match_var op cl s =
     (case s of
        d # p # c # r \<Rightarrow>
          if d = CHR ''$'' \<and> p = op \<and> is_alpha c then
            (case dropWhile is_word r of
               x # _ \<Rightarrow>
                 if x = cl then Some (length (takeWhile is_word r) + 4, c # takeWhile is_word r)
                 else None
             | [] \<Rightarrow> None)
          else None
      | _ \<Rightarrow> None)"

text \<open>\<open>rx.search(s)\<close>: the match at the leftmost position that has one.\<close>

fun search_var :: "char \<Rightarrow> char \<Rightarrow> string \<Rightarrow> rematch option" where
  "search_var op cl [] = None"
| "search_var op cl (c # s) =
     (case match_var op cl (c # s) of
        Some (e, n) \<Rightarrow> Some (0, e, n)
      | None \<Rightarrow> map_option (\<lambda>(b, e, n). (Suc b, Suc e, n)) (search_var op cl s))"

text \<open>\<open>_findvar1_rx = \$\(([A-Za-z][A-Za-z0-9_]*)\)\<close> and \<open>_findvar2_rx = \${([A-Za-z][A-Za-z0-9_]*)}\<close>\<close>

definition findvar1_rx_search :: "string \<Rightarrow> rematch option" where
  "findvar1_rx_search s = search_var (CHR ''('') (CHR '')'') s"

definition findvar2_rx_search :: "string \<Rightarrow> rematch option" where
  "findvar2_rx_search s = search_var (CHR ''{'') (CHR ''}'') s"

text \<open>\<open>_findvar1_rx.search(s) or _findvar2_rx.search(s)\<close>\<close>

definition findvar :: "string \<Rightarrow> rematch option" where
  "findvar s = (case findvar1_rx_search s of Some m \<Rightarrow> Some m | None \<Rightarrow> findvar2_rx_search s)"

text \<open>
  \<open>_variable_rx.match(line)\<close> for \<open>([a-zA-Z][a-zA-Z0-9_]+)\s*=\s*(.*)\<close>: groups 1 and 2.
  The name has at least two characters; the dot does not match a line feed.
\<close>

definition variable_rx_match :: "string \<Rightarrow> (string \<times> string) option" where
  "variable_rx_match line =
     (case line of
        c # r \<Rightarrow>
          if is_alpha c \<and> takeWhile is_word r \<noteq> [] then
            (case dropWhile is_space (dropWhile is_word r) of
               x # r2 \<Rightarrow>
                 if x = CHR ''='' then
                   Some (c # takeWhile is_word r,
                         takeWhile (\<lambda>c. c \<noteq> newline) (dropWhile is_space r2))
                 else None
             | [] \<Rightarrow> None)
          else None
      | [] \<Rightarrow> None)"

text \<open>\<open>define_rx.match(line)\<close> for \<open>#define ([A-Z][A-Za-z0-9_]+) (.*)\n\<close>: groups 1 and 2.\<close>

definition define_rx_match :: "string \<Rightarrow> (string \<times> string) option" where
  "define_rx_match line =
     (if take 8 line = ''#define '' then
        (case drop 8 line of
           c # r \<Rightarrow>
             if is_upper c \<and> takeWhile is_word r \<noteq> [] then
               (case dropWhile is_word r of
                  x # r1 \<Rightarrow>
                    if x = CHR '' '' \<and> dropWhile (\<lambda>c. c \<noteq> newline) r1 \<noteq> [] then
                      Some (c # takeWhile is_word r, takeWhile (\<lambda>c. c \<noteq> newline) r1)
                    else None
                | [] \<Rightarrow> None)
             else None
         | [] \<Rightarrow> None)
      else None)"

text \<open>\<open>undef_rx.match(line)\<close> for \<open>/[*] #undef ([A-Z][A-Za-z0-9_]+) [*]/\n\<close>: group 1.\<close>

definition undef_rx_match :: "string \<Rightarrow> string option" where
  "undef_rx_match line =
     (if take 10 line = ''/* #undef '' then
        (case drop 10 line of
           c # r \<Rightarrow>
             if is_upper c \<and> takeWhile is_word r \<noteq> []
                \<and> take 4 (dropWhile is_word r) = '' */'' @ [newline]
             then Some (c # takeWhile is_word r)
             else None
         | [] \<Rightarrow> None)
      else None)"

section \<open>parse_config_h\<close>

text \<open>
  The body of the loop for one line, and the loop over the lines that \<open>fp.readline()\<close>
  returns; an empty string ends it. The dictionary \<open>g\<close> is passed explicitly (the caller
  passes the empty one for \<open>g=None\<close>).
\<close>

definition config_h_line :: "string \<Rightarrow> dict \<Rightarrow> dict" where
  "config_h_line line g =
     (case define_rx_match line of
        Some (n, v) \<Rightarrow> g(n \<mapsto> int_or_str v)
      | None \<Rightarrow>
          (case undef_rx_match line of
             Some n \<Rightarrow> g(n \<mapsto> PInt 0)
           | None \<Rightarrow> g))"

fun parse_config_h :: "string list \<Rightarrow> dict \<Rightarrow> dict" where
  "parse_config_h [] g = g"
| "parse_config_h (line # fp) g =
     (if line = [] then g else parse_config_h fp (config_h_line line g))"

section \<open>parse_makefile\<close>

text \<open>
  \<open>done\<close> is a map; \<open>notdone\<close> is an association list with distinct keys, because the sweep
  iterates over its keys. The state of the parse is the pair of both.
\<close>

type_synonym pending = "(string \<times> string) list"

type_synonym mkstate = "dict \<times> pending"

text \<open>\<open>v.replace('$$', r)\<close>: occurrences are taken from the left and do not overlap.\<close>

fun replace_dollars :: "string \<Rightarrow> string \<Rightarrow> string" where
  "replace_dollars r (a # b # s) =
     (if a = CHR ''$'' \<and> b = CHR ''$'' then r @ replace_dollars r s
      else a # replace_dollars r (b # s))"
| "replace_dollars r s = s"

text \<open>The first loop: one line that \<open>fp.readline()\<close> returned.\<close>

definition scan_line :: "string \<Rightarrow> mkstate \<Rightarrow> mkstate" where
  "scan_line line st =
     (case variable_rx_match line of
        None \<Rightarrow> st
      | Some (n, v0) \<Rightarrow>
          let v = strip v0; tmpv = replace_dollars [] v in
          if CHR ''$'' \<in> set tmpv then (fst st, AList.update n v (snd st))
          else
            (case py_int v of
               None \<Rightarrow> ((fst st)(n \<mapsto> PStr (replace_dollars ''$'' v)), snd st)
             | Some i \<Rightarrow> ((fst st)(n \<mapsto> PInt i), snd st)))"

fun scan_lines :: "string list \<Rightarrow> mkstate \<Rightarrow> mkstate" where
  "scan_lines [] st = st"
| "scan_lines (line # fp) st = scan_lines fp (scan_line line st)"

definition renamed_variables :: "string list" where
  "renamed_variables = [''CFLAGS'', ''LDFLAGS'', ''CPPFLAGS'']"

text \<open>\<open>name.startswith('PY_') and name[3:] in renamed_variables\<close>\<close>

definition is_py_renamed :: "string \<Rightarrow> bool" where
  "is_py_renamed name \<longleftrightarrow> take 3 name = ''PY_'' \<and> drop 3 name \<in> set renamed_variables"

text \<open>
  The chain \<open>if n in done: ... elif n in notdone: ... else: done[n] = item = ""\<close> that
  looks the referenced name \<open>n\<close> up for the pending variable \<open>name\<close>. The result is the
  exception, or \<open>item\<close> (\<open>None\<close> when \<open>found\<close> is false) with the \<open>done\<close> map, which the last
  branch extends.
\<close>

definition resolve ::
  "environ \<Rightarrow> dict \<Rightarrow> pending \<Rightarrow> string \<Rightarrow> string \<Rightarrow> exn + (string option \<times> dict)" where
  "resolve env done notdone name n =
     (case done n of
        Some v \<Rightarrow> Inr (Some (py_str v), done)
      | None \<Rightarrow>
          if map_of notdone n \<noteq> None then Inr (None, done)
          else
            (case env n of
               Some e \<Rightarrow> Inr (Some e, done)
             | None \<Rightarrow>
                 if n \<in> set renamed_variables then
                   (if is_py_renamed name then Inr (Some [], done)
                    else if map_of notdone (''PY_'' @ n) \<noteq> None then Inr (None, done)
                    else
                      (case done (''PY_'' @ n) of
                         None \<Rightarrow> Inl (KeyError (''PY_'' @ n))
                       | Some v \<Rightarrow> Inr (Some (py_str v), done)))
                 else Inr (Some [], done(n \<mapsto> PStr []))))"

text \<open>
  The block under \<open>if found:\<close>: the match from \<open>b\<close> to \<open>e\<close> in \<open>value\<close> is replaced by
  \<open>item\<close>; the variable stays pending when the text after the match has a dollar sign,
  and is stored in \<open>done\<close> otherwise (and, for a \<open>PY_\<close> name of a renamed variable, also
  under the name without the prefix unless \<open>done\<close> has that name).
\<close>

definition substitute ::
  "string \<Rightarrow> string \<Rightarrow> nat \<Rightarrow> nat \<Rightarrow> string \<Rightarrow> mkstate \<Rightarrow> mkstate" where
  "substitute name value b e item st =
     (let after = drop e value; value1 = take b value @ item @ after in
      if CHR ''$'' \<in> set after then (fst st, AList.update name value1 (snd st))
      else
        let done2 =
              (case py_int value1 of
                 None \<Rightarrow> (fst st)(name \<mapsto> PStr (strip value1))
               | Some i \<Rightarrow> (fst st)(name \<mapsto> PInt i));
            notdone2 = AList.delete name (snd st)
        in
          if is_py_renamed name \<and> done2 (drop 3 name) = None
          then (done2(drop 3 name \<mapsto> int_or_str value1), notdone2)
          else (done2, notdone2))"

text \<open>
  The body of \<open>for name in list(notdone)\<close> for one name. \<open>notdone[name]\<close> is a subscript,
  so an absent name raises. A value without a match is the bogus reference, which is
  deleted from \<open>notdone\<close>.
\<close>

definition process_var :: "environ \<Rightarrow> string \<Rightarrow> mkstate \<Rightarrow> exn + mkstate" where
  "process_var env name st =
     (case map_of (snd st) name of
        None \<Rightarrow> Inl (KeyError name)
      | Some value \<Rightarrow>
          (case findvar value of
             None \<Rightarrow> Inr (fst st, AList.delete name (snd st))
           | Some (b, e, n) \<Rightarrow>
               (case resolve env (fst st) (snd st) name n of
                  Inl err \<Rightarrow> Inl err
                | Inr (None, done1) \<Rightarrow> Inr (done1, snd st)
                | Inr (Some item, done1) \<Rightarrow>
                    Inr (substitute name value b e item (done1, snd st)))))"

text \<open>One pass of the \<open>for\<close> loop over the names it is given; an exception ends it.\<close>

fun sweep :: "environ \<Rightarrow> string list \<Rightarrow> mkstate \<Rightarrow> exn + mkstate" where
  "sweep env [] st = Inr st"
| "sweep env (name # names) st =
     (case process_var env name st of
        Inl err \<Rightarrow> Inl err
      | Inr st1 \<Rightarrow> sweep env names st1)"

text \<open>
  \<open>while notdone: for name in list(notdone): ...\<close>. The order in which \<open>list(notdone)\<close>
  lists the keys is that of the hash table; it is the parameter \<open>ord\<close>, applied to the keys
  in the order of their insertion. \<open>None\<close> is a loop that does not end.
\<close>

partial_function (option) interpolate ::
  "(string list \<Rightarrow> string list) \<Rightarrow> environ \<Rightarrow> mkstate \<Rightarrow> (exn + dict) option" where
  "interpolate ord env st =
     (if snd st = [] then Some (Inr (fst st))
      else
        (case sweep env (ord (map fst (snd st))) st of
           Inl err \<Rightarrow> Some (Inl err)
         | Inr st1 \<Rightarrow> interpolate ord env st1))"

text \<open>\<open>if isinstance(v, str): done[k] = v.strip()\<close>\<close>

definition strip_value :: "pyval \<Rightarrow> pyval" where
  "strip_value v = (case v of PStr s \<Rightarrow> PStr (strip s) | PInt i \<Rightarrow> PInt i)"

text \<open>
  The whole function, on the lines that the \<open>TextFile\<close> object returns (comments stripped,
  blank lines skipped, continuation lines joined, trailing white space removed), with the
  process environment \<open>env\<close> and the dictionary \<open>g\<close> to update.
\<close>

definition parse_makefile ::
  "(string list \<Rightarrow> string list) \<Rightarrow> environ \<Rightarrow> string list \<Rightarrow> dict \<Rightarrow> (exn + dict) option" where
  "parse_makefile ord env fp g =
     (case interpolate ord env (scan_lines fp (Map.empty, [])) of
        None \<Rightarrow> None
      | Some (Inl err) \<Rightarrow> Some (Inl err)
      | Some (Inr done) \<Rightarrow> Some (Inr (g ++ (map_option strip_value \<circ> done))))"

text \<open>The order of insertion, which later versions of the language guarantee.\<close>

definition insertion_order :: "string list \<Rightarrow> string list" where
  "insertion_order ks = ks"

section \<open>expand_makefile_vars\<close>

text \<open>
  \<open>vars.get(m.group(1))\<close> is \<open>None\<close> for an absent key, and \<open>str + None\<close> raises
  \<open>TypeError\<close>, as does \<open>str + int\<close>.
\<close>

partial_function (option) expand_makefile_vars ::
  "string \<Rightarrow> dict \<Rightarrow> (exn + string) option" where
  "expand_makefile_vars s vars =
     (case findvar s of
        None \<Rightarrow> Some (Inr s)
      | Some (b, e, n) \<Rightarrow>
          (case vars n of
             Some (PStr v) \<Rightarrow> expand_makefile_vars (take b s @ v @ drop e s) vars
           | _ \<Rightarrow> Some (Inl TypeError)))"

section \<open>The line shapes of a configuration header\<close>

text \<open>
  The two line shapes that store something, stated on the text of the line:
  \<open>#define NAME VALUE\<close> and \<open>/* #undef NAME */\<close>, each followed by a line feed, where NAME
  is a capital letter followed by at least one letter, digit or underscore, and VALUE runs
  to the line feed. This is narrower than any \<open>#define NAME VALUE\<close>: a NAME that begins
  with a small letter or an underscore, or has one character, is left out.
\<close>


definition c_name :: "string \<Rightarrow> bool" where
  "c_name n = (case n of c # r \<Rightarrow> is_upper c \<and> r \<noteq> [] \<and> list_all is_word r | [] \<Rightarrow> False)"

definition starts_with :: "string \<Rightarrow> string \<Rightarrow> bool" where
  "starts_with p s \<longleftrightarrow> take (length p) s = p"

definition is_define_line :: "string \<Rightarrow> string \<Rightarrow> string \<Rightarrow> bool" where
  "is_define_line line n v \<longleftrightarrow>
     c_name n \<and> newline \<notin> set v \<and> starts_with (''#define '' @ n @ '' '' @ v @ [newline]) line"

definition is_undef_line :: "string \<Rightarrow> string \<Rightarrow> bool" where
  "is_undef_line line n \<longleftrightarrow> c_name n \<and> starts_with (''/* #undef '' @ n @ '' */'' @ [newline]) line"


section \<open>Trimmed strings\<close>

text \<open>A string with no white space at either end.\<close>

definition trimmed :: "string \<Rightarrow> bool" where
  "trimmed s \<longleftrightarrow> s = [] \<or> (\<not> is_space (hd s) \<and> \<not> is_space (last s))"

section \<open>References in a value\<close>

text \<open>
  The reference forms as the description words them: \<open>$(NAME)\<close> or \<open>${NAME}\<close> somewhere in
  the text, NAME being a letter followed by letters, digits and underscores.
\<close>

definition ref_name :: "string \<Rightarrow> bool" where
  "ref_name n = (case n of c # r \<Rightarrow> is_alpha c \<and> list_all is_word r | [] \<Rightarrow> False)"

definition has_reference :: "string \<Rightarrow> string \<Rightarrow> bool" where
  "has_reference s n \<longleftrightarrow>
     ref_name n \<and>
     (\<exists>pre post. s = pre @ ''$('' @ n @ '')'' @ post \<or> s = pre @ ''${'' @ n @ ''}'' @ post)"

text \<open>A pending set in which no value has a reference.\<close>

definition all_bogus :: "pending \<Rightarrow> bool" where
  "all_bogus notdone = list_all (\<lambda>(k, v). findvar v = None) notdone"

section \<open>Pending sets that one sweep settles\<close>

text \<open>
  A pending value settles when it has no reference, or when no dollar sign follows its
  reference and the referenced name is pending neither as it is nor with the prefix
  \<open>PY_\<close>: such a variable is never deferred and never stays pending.
\<close>

definition settles :: "pending \<Rightarrow> string \<Rightarrow> bool" where
  "settles notdone val =
     (case findvar val of
        None \<Rightarrow> True
      | Some (b, e, n) \<Rightarrow>
          CHR ''$'' \<notin> set (drop e val) \<and> map_of notdone n = None
          \<and> map_of notdone (''PY_'' @ n) = None)"

definition all_settle :: "pending \<Rightarrow> bool" where
  "all_settle notdone = list_all (\<lambda>(k, v). settles notdone v) notdone"

section \<open>Dollar signs in strings and mappings\<close>

text \<open>
  The number of dollar signs of a string, and the mappings whose string values have
  none: values that are resolved and hold no escaped dollar sign.
\<close>

definition dollars :: "string \<Rightarrow> nat" where
  "dollars s = length (filter (\<lambda>c. c = CHR ''$'') s)"

definition dollar_free :: "dict \<Rightarrow> bool" where
  "dollar_free vars \<longleftrightarrow> (\<forall>k v. vars k = Some (PStr v) \<longrightarrow> CHR ''$'' \<notin> set v)"

section \<open>get_config_vars\<close>

text \<open>
  The module-global \<open>_config_vars\<close> is \<open>None\<close> or a reference to a dictionary object; an
  object is kept as its identity and its contents, and \<open>fresh\<close> is the identity of the next
  object created. What \<open>get_config_vars\<close> returns is the reference (no arguments) or the
  list of the values looked up with \<open>_config_vars.get\<close>.
\<close>

datatype retval = RDict nat | RList "pyval option list"

record sysconfig =
  config_vars :: "(nat \<times> dict) option"
  fresh :: nat

text \<open>
  What the call finds outside the module: \<open>init_os\<close> is the outcome of the function
  \<open>_init_<os.name>\<close> (\<open>None\<close> when the module has none for this \<open>os.name\<close>; else the
  dictionary that it assigns to \<open>_config_vars\<close> as its last step, or the exception that it
  raises before that); \<open>PREFIX\<close> and \<open>EXEC_PREFIX\<close> are the module constants; \<open>fixups\<close> is the
  post-processing of \<open>srcdir\<close> and of the flags on Mac OS X, which works on the dictionary
  in place and may raise: it gives the dictionary as it leaves it and the exception, if
  any.
\<close>

record platform =
  init_os :: "(exn + dict) option"
  PREFIX :: string
  EXEC_PREFIX :: string
  fixups :: "dict \<Rightarrow> exn option \<times> dict"

definition return_vars :: "string list \<Rightarrow> nat \<times> dict \<Rightarrow> retval" where
  "return_vars args obj = (if args \<noteq> [] then RList (map (snd obj) args) else RDict (fst obj))"

text \<open>
  \<open>get_config_vars(*args)\<close>: the body under \<open>if _config_vars is None\<close> runs only when the
  global is \<open>None\<close>; an exception of the post-processing leaves the global set.
\<close>

definition get_config_vars ::
  "platform \<Rightarrow> string list \<Rightarrow> sysconfig \<Rightarrow> (exn + retval) \<times> sysconfig" where
  "get_config_vars p args st =
     (case config_vars st of
        None \<Rightarrow>
          (case init_os p of
             Some (Inl err) \<Rightarrow> (Inl err, st)
           | io \<Rightarrow>
               let g = (case io of Some (Inr g0) \<Rightarrow> g0 | _ \<Rightarrow> Map.empty);
                   res = fixups p (g(''prefix'' \<mapsto> PStr (PREFIX p),
                                     ''exec_prefix'' \<mapsto> PStr (EXEC_PREFIX p)));
                   obj = (fresh st, snd res);
                   st1 = st\<lparr>config_vars := Some obj, fresh := Suc (fresh st)\<rparr>
               in (case fst res of
                     Some err \<Rightarrow> (Inl err, st1)
                   | None \<Rightarrow> (Inr (return_vars args obj), st1)))
      | Some obj \<Rightarrow> (Inr (return_vars args obj), st))"

text \<open>Two platforms to run the function on.\<close>

definition unix_like :: platform where
  "unix_like = \<lparr>init_os = Some (Inr [''CC'' \<mapsto> PStr ''gcc'']), PREFIX = ''/usr'',
     EXEC_PREFIX = ''/usr'', fixups = Pair None\<rparr>"

definition broken_install :: platform where
  "broken_install = \<lparr>init_os = Some (Inl (DistutilsPlatformError ''invalid Python installation'')),
     PREFIX = ''/usr'', EXEC_PREFIX = ''/usr'', fixups = Pair None\<rparr>"

section \<open>Facts about the character classes and the patterns\<close>

lemmas char_class_defs =
  ord_c_def newline_def is_upper_def is_lower_def is_digit_def is_alpha_def is_word_def is_space_def

lemma starts_withD: "starts_with p s \<Longrightarrow> \<exists>rest. s = p @ rest"
  unfolding starts_with_def by (metis append_take_drop_id)

lemma starts_with_append [simp]: "starts_with p (p @ rest)"
  by (simp add: starts_with_def)

lemma takeWhile_run:
  "list_all P xs \<Longrightarrow> \<not> P y \<Longrightarrow> takeWhile P (xs @ y # ys) = xs"
  by (induction xs) auto

lemma dropWhile_run:
  "list_all P xs \<Longrightarrow> \<not> P y \<Longrightarrow> dropWhile P (xs @ y # ys) = y # ys"
  by (induction xs) auto

lemma takeWhile_until:
  "y \<notin> set xs \<Longrightarrow> takeWhile (\<lambda>c. c \<noteq> y) (xs @ y # ys) = xs"
  by (induction xs) auto

lemma dropWhile_until:
  "y \<notin> set xs \<Longrightarrow> dropWhile (\<lambda>c. c \<noteq> y) (xs @ y # ys) = y # ys"
  by (induction xs) auto

lemma not_word_space [simp]: "\<not> is_word (CHR '' '')"
  by (simp add: char_class_defs)

lemma define_rx_match_complete:
  assumes "is_define_line line n v"
  shows "define_rx_match line = Some (n, v)"
proof -
  from assms obtain c r where n: "n = c # r" and c: "is_upper c" and r: "r \<noteq> []" "list_all is_word r"
    by (auto simp: is_define_line_def c_name_def split: list.splits)
  from assms have nl: "newline \<notin> set v" by (simp add: is_define_line_def)
  from assms obtain rest where line: "line = ''#define '' @ n @ '' '' @ v @ [newline] @ rest"
    using starts_withD unfolding is_define_line_def by fastforce
  have t: "takeWhile is_word (r @ CHR '' '' # v @ newline # rest) = r"
    and d: "dropWhile is_word (r @ CHR '' '' # v @ newline # rest) = CHR '' '' # v @ newline # rest"
    using r by (simp_all add: takeWhile_run dropWhile_run)
  show ?thesis
    unfolding define_rx_match_def line n
    using c r nl by (simp add: t d takeWhile_until dropWhile_until)
qed

lemma define_rx_match_sound:
  assumes "define_rx_match line = Some (n, v)"
  shows "is_define_line line n v"
proof -
  from assms have p: "take 8 line = ''#define ''"
    by (auto simp: define_rx_match_def split: if_splits)
  with assms obtain c r r1 where dl: "drop 8 line = c # r" and c: "is_upper c"
    and tw: "takeWhile is_word r \<noteq> []" and dw: "dropWhile is_word r = CHR '' '' # r1"
    and ne: "dropWhile (\<lambda>c. c \<noteq> newline) r1 \<noteq> []"
    and n: "n = c # takeWhile is_word r" and v: "v = takeWhile (\<lambda>c. c \<noteq> newline) r1"
    by (auto simp: define_rx_match_def split: if_splits list.splits)
  from ne have "hd (dropWhile (\<lambda>c. c \<noteq> newline) r1) = newline"
    using hd_dropWhile [of "\<lambda>c. c \<noteq> newline" r1] by auto
  with ne obtain rest where dr: "dropWhile (\<lambda>c. c \<noteq> newline) r1 = newline # rest"
    by (cases "dropWhile (\<lambda>c. c \<noteq> newline) r1") auto
  have "line = take 8 line @ drop 8 line" by simp
  also have "\<dots> = ''#define '' @ c # (takeWhile is_word r @ dropWhile is_word r)"
    by (simp add: p dl)
  also have "\<dots> = ''#define '' @ n @ '' '' @ (takeWhile (\<lambda>c. c \<noteq> newline) r1 @ dropWhile (\<lambda>c. c \<noteq> newline) r1)"
    unfolding dw n by simp
  also have "\<dots> = (''#define '' @ n @ '' '' @ v @ [newline]) @ rest"
    unfolding dr v by simp
  finally have line: "line = (''#define '' @ n @ '' '' @ v @ [newline]) @ rest" .
  have cn: "c_name n"
    using c tw by (simp add: c_name_def n list_all_iff) (metis set_takeWhileD)
  have "newline \<notin> set v" unfolding v by (auto dest: set_takeWhileD)
  with cn line show ?thesis
    unfolding is_define_line_def by (metis starts_with_append)
qed

lemma undef_rx_match_complete:
  assumes "is_undef_line line n"
  shows "undef_rx_match line = Some n"
proof -
  from assms obtain c r where n: "n = c # r" and c: "is_upper c" and r: "r \<noteq> []" "list_all is_word r"
    by (auto simp: is_undef_line_def c_name_def split: list.splits)
  from assms obtain rest where line: "line = ''/* #undef '' @ n @ '' */'' @ [newline] @ rest"
    using starts_withD unfolding is_undef_line_def by fastforce
  have t: "takeWhile is_word (r @ CHR '' '' # ''*/'' @ newline # rest) = r"
    and d: "dropWhile is_word (r @ CHR '' '' # ''*/'' @ newline # rest) = CHR '' '' # ''*/'' @ newline # rest"
    using r by (simp_all add: takeWhile_run dropWhile_run)
  show ?thesis
    unfolding undef_rx_match_def line n
    using c r t d by simp
qed

lemma undef_rx_match_sound:
  assumes "undef_rx_match line = Some n"
  shows "is_undef_line line n"
proof -
  from assms have p: "take 10 line = ''/* #undef ''"
    by (auto simp: undef_rx_match_def split: if_splits)
  with assms obtain c r where dl: "drop 10 line = c # r" and c: "is_upper c"
    and tw: "takeWhile is_word r \<noteq> []"
    and dw: "take 4 (dropWhile is_word r) = '' */'' @ [newline]"
    and n: "n = c # takeWhile is_word r"
    by (auto simp: undef_rx_match_def split: if_splits list.splits)
  have "line = take 10 line @ drop 10 line" by simp
  also have "\<dots> = ''/* #undef '' @ c # (takeWhile is_word r @ dropWhile is_word r)"
    by (simp add: p dl)
  also have "dropWhile is_word r = take 4 (dropWhile is_word r) @ drop 4 (dropWhile is_word r)"
    by simp
  finally have line: "line = (''/* #undef '' @ n @ '' */'' @ [newline]) @ drop 4 (dropWhile is_word r)"
    unfolding dw n by simp
  have cn: "c_name n"
    using c tw by (simp add: c_name_def n list_all_iff) (metis set_takeWhileD)
  with line show ?thesis
    unfolding is_undef_line_def by (metis starts_with_append)
qed

lemma define_undef_exclusive: "is_define_line line n v \<Longrightarrow> \<not> is_undef_line line m"
  by (auto simp: is_define_line_def is_undef_line_def starts_with_def dest!: arg_cong [where f = hd] split: list.splits)

lemma starts_with_Cons [simp]: "starts_with (a # p) (b # s) \<longleftrightarrow> a = b \<and> starts_with p s"
  by (auto simp: starts_with_def)

lemma starts_with_Nil [simp]: "starts_with [] s" "starts_with (a # p) [] \<longleftrightarrow> False"
  by (simp_all add: starts_with_def)

lemma parse_config_h_fold: "[] \<notin> set fp \<Longrightarrow> parse_config_h fp g = fold config_h_line fp g"
  by (induction fp arbitrary: g) auto

section \<open>Claims on parse_config_h\<close>

text \<open>
  Claim C8 says that every line of the form \<open>#define NAME VALUE\<close> stores VALUE under NAME
  and every line of the form \<open>/* #undef NAME */\<close> stores 0 under NAME. The patterns take
  fewer lines than that: NAME has to begin with a capital letter and to have a second
  character, and the line has to end with a line feed. The lines
  \<open>#define _GNU_SOURCE 1\<close>, \<open>#define F 1\<close> and \<open>/* #undef const */\<close>, and a last line
  \<open>#define HAVE_X 1\<close> with no line feed, store nothing.
\<close>

theorem parse_config_h_counterexample:
  "config_h_line (''#define _GNU_SOURCE 1'' @ [newline]) Map.empty ''_GNU_SOURCE'' = None
   \<and> config_h_line (''#define F 1'' @ [newline]) Map.empty ''F'' = None
   \<and> config_h_line (''/* #undef const */'' @ [newline]) Map.empty ''const'' = None
   \<and> config_h_line ''#define HAVE_X 1'' Map.empty ''HAVE_X'' = None
   \<and> parse_config_h [''#define _GNU_SOURCE 1'' @ [newline], ''/* #undef const */'' @ [newline]]
         Map.empty = Map.empty"
  by (simp add: config_h_line_def define_rx_match_def undef_rx_match_def char_class_defs)

text \<open>
  Claim C8 as amended. For each input line, \<open>parse_config_h\<close> does the following. A line
  that begins with \<open>#define NAME VALUE\<close> and a line feed, where NAME is a capital letter
  followed by at least one letter, digit or underscore and VALUE is the text up to the
  line feed, stores VALUE under NAME, as an integer when VALUE parses as one and as the
  string otherwise. A line that begins with \<open>/* #undef NAME */\<close> and a line feed, with
  such a NAME, stores 0 under NAME. Every other line leaves the mapping as it is. The loop
  applies this to the lines one after the other.
\<close>

theorem parse_config_h_line_shapes:
  "(is_define_line line n v \<longrightarrow>
      config_h_line line g = g(n \<mapsto> (case py_int v of Some i \<Rightarrow> PInt i | None \<Rightarrow> PStr v)))
   \<and> (is_undef_line line n \<longrightarrow> config_h_line line g = g(n \<mapsto> PInt 0))
   \<and> ((\<forall>n v. \<not> is_define_line line n v) \<and> (\<forall>n. \<not> is_undef_line line n) \<longrightarrow>
        config_h_line line g = g)
   \<and> ([] \<notin> set fp \<longrightarrow> parse_config_h fp g = fold config_h_line fp g)"
proof (intro conjI impI)
  assume "is_define_line line n v"
  then have "define_rx_match line = Some (n, v)" by (rule define_rx_match_complete)
  then show "config_h_line line g = g(n \<mapsto> (case py_int v of Some i \<Rightarrow> PInt i | None \<Rightarrow> PStr v))"
    by (simp add: config_h_line_def int_or_str_def)
next
  assume u: "is_undef_line line n"
  then have "undef_rx_match line = Some n" by (rule undef_rx_match_complete)
  moreover have "define_rx_match line = None"
  proof (cases "define_rx_match line")
    case (Some p)
    then have "is_define_line line (fst p) (snd p)" by (simp add: define_rx_match_sound)
    with u show ?thesis using define_undef_exclusive by blast
  qed simp
  ultimately show "config_h_line line g = g(n \<mapsto> PInt 0)"
    by (simp add: config_h_line_def)
next
  assume other: "(\<forall>n v. \<not> is_define_line line n v) \<and> (\<forall>n. \<not> is_undef_line line n)"
  have "define_rx_match line = None"
  proof (cases "define_rx_match line")
    case (Some p)
    then have "is_define_line line (fst p) (snd p)" by (simp add: define_rx_match_sound)
    with other show ?thesis by blast
  qed simp
  moreover have "undef_rx_match line = None"
  proof (cases "undef_rx_match line")
    case (Some m)
    then have "is_undef_line line m" by (rule undef_rx_match_sound)
    with other show ?thesis by blast
  qed simp
  ultimately show "config_h_line line g = g" by (simp add: config_h_line_def)
next
  assume "[] \<notin> set fp"
  then show "parse_config_h fp g = fold config_h_line fp g" by (rule parse_config_h_fold)
qed

lemma py_int_1: "py_int ''1'' = Some 1"
  by (simp add: py_int_def strip_def int_digits_def digits_val_def char_class_defs)

lemma not_shapes: "(\<forall>n v. \<not> is_define_line (''int x;'' @ [newline]) n v) \<and> (\<forall>n. \<not> is_undef_line (''int x;'' @ [newline]) n)"
  by (simp add: is_define_line_def is_undef_line_def)

theorem parse_config_h_line_shapes_witness:
  "is_define_line (''#define HAVE_FOO 1'' @ [newline]) ''HAVE_FOO'' ''1''
   \<and> config_h_line (''#define HAVE_FOO 1'' @ [newline]) Map.empty = [''HAVE_FOO'' \<mapsto> PInt 1]
   \<and> is_undef_line (''/* #undef HAVE_BAR */'' @ [newline]) ''HAVE_BAR''
   \<and> config_h_line (''/* #undef HAVE_BAR */'' @ [newline]) Map.empty = [''HAVE_BAR'' \<mapsto> PInt 0]
   \<and> config_h_line (''int x;'' @ [newline]) Map.empty = Map.empty
   \<and> parse_config_h [''#define HAVE_FOO 1'' @ [newline], ''/* #undef HAVE_BAR */'' @ [newline]] Map.empty
       = [''HAVE_FOO'' \<mapsto> PInt 1, ''HAVE_BAR'' \<mapsto> PInt 0]"
proof -
  have d: "is_define_line (''#define HAVE_FOO 1'' @ [newline]) ''HAVE_FOO'' ''1''"
    by (simp add: is_define_line_def c_name_def char_class_defs)
  have u: "is_undef_line (''/* #undef HAVE_BAR */'' @ [newline]) ''HAVE_BAR''"
    by (simp add: is_undef_line_def c_name_def char_class_defs)
  have ne: "[] \<notin> set [''#define HAVE_FOO 1'' @ [newline], ''/* #undef HAVE_BAR */'' @ [newline]]"
    by simp
  note a = parse_config_h_line_shapes [of "''#define HAVE_FOO 1'' @ [newline]" "''HAVE_FOO''" "''1''" Map.empty "[]"]
  note b = parse_config_h_line_shapes [of "''/* #undef HAVE_BAR */'' @ [newline]" "''HAVE_BAR''" "''1''" "[''HAVE_FOO'' \<mapsto> PInt 1]" "[]"]
  note b0 = parse_config_h_line_shapes [of "''/* #undef HAVE_BAR */'' @ [newline]" "''HAVE_BAR''" "''1''" "Map.empty" "[]"]
  note c = parse_config_h_line_shapes [of "''int x;'' @ [newline]" "[]" "[]" Map.empty
      "[''#define HAVE_FOO 1'' @ [newline], ''/* #undef HAVE_BAR */'' @ [newline]]"]
  from a d have 1: "config_h_line (''#define HAVE_FOO 1'' @ [newline]) Map.empty = [''HAVE_FOO'' \<mapsto> PInt 1]"
    by (simp add: py_int_1)
  from b u have 2: "config_h_line (''/* #undef HAVE_BAR */'' @ [newline]) [''HAVE_FOO'' \<mapsto> PInt 1] = [''HAVE_FOO'' \<mapsto> PInt 1, ''HAVE_BAR'' \<mapsto> PInt 0]"
    by blast
  from b0 u have 3: "config_h_line (''/* #undef HAVE_BAR */'' @ [newline]) Map.empty = [''HAVE_BAR'' \<mapsto> PInt 0]"
    by blast
  from c not_shapes have 4: "config_h_line (''int x;'' @ [newline]) Map.empty = Map.empty"
    by blast
  from c ne have 5: "parse_config_h [''#define HAVE_FOO 1'' @ [newline], ''/* #undef HAVE_BAR */'' @ [newline]] Map.empty
      = fold config_h_line [''#define HAVE_FOO 1'' @ [newline], ''/* #undef HAVE_BAR */'' @ [newline]] Map.empty"
    by blast
  show ?thesis using d u 1 2 3 4 5 by simp
qed

section \<open>Evaluation and loop facts for parse_makefile\<close>

lemmas regex_defs =
  findvar_def findvar1_rx_search_def findvar2_rx_search_def match_var_def variable_rx_match_def

lemmas int_defs = py_int_def strip_def int_digits_def digits_val_def int_or_str_def

lemma sweep_raises:
  "process_var env name st = Inl err \<Longrightarrow> sweep env (name # names) st = Inl err"
  by simp

lemma interpolate_raises:
  assumes "snd st \<noteq> []" and "sweep env (ord (map fst (snd st))) st = Inl err"
  shows "interpolate ord env st = Some (Inl err)"
  using assms by (subst interpolate.simps) simp

lemma interpolate_done: "interpolate ord env (done, []) = Some (Inr done)"
  by (subst interpolate.simps) simp

lemma interpolate_step:
  assumes "snd st \<noteq> []" and "sweep env (ord (map fst (snd st))) st = Inr st1"
  shows "interpolate ord env st = interpolate ord env st1"
  using assms by (subst interpolate.simps) simp

section \<open>Claims on the resolution of a reference\<close>

text \<open>
  Claim C10. The fallback for the renamed variables is partial. When a pending variable
  whose name does not start with \<open>PY_\<close> has, as the reference found in its value, one of
  \<open>CFLAGS\<close>, \<open>LDFLAGS\<close>, \<open>CPPFLAGS\<close>, and that name is neither in \<open>done\<close>, nor pending, nor
  in the environment, and the name with the prefix \<open>PY_\<close> is neither pending nor in \<open>done\<close>,
  then the subscript \<open>done['PY_' + n]\<close> raises \<open>KeyError\<close>: the reference is not
  defaulted to the empty string, and the sweep loop that meets this variable first ends
  with the exception.
\<close>

theorem renamed_fallback_KeyError:
  assumes pending: "map_of notdone name = Some value"
    and ref: "findvar value = Some (b, e, n)"
    and renamed: "n \<in> set renamed_variables"
    and no_prefix: "take 3 name \<noteq> ''PY_''"
    and absent: "done n = None" "map_of notdone n = None" "env n = None"
    and py_absent: "map_of notdone (''PY_'' @ n) = None" "done (''PY_'' @ n) = None"
  shows "process_var env name (done, notdone) = Inl (KeyError (''PY_'' @ n))
    \<and> (\<forall>names. ord (map fst notdone) = name # names \<longrightarrow>
          interpolate ord env (done, notdone) = Some (Inl (KeyError (''PY_'' @ n))))"
proof -
  from no_prefix have "\<not> is_py_renamed name" by (simp add: is_py_renamed_def)
  with renamed absent py_absent
  have "resolve env done notdone name n = Inl (KeyError (''PY_'' @ n))"
    by (simp add: resolve_def)
  with pending ref
  have step: "process_var env name (done, notdone) = Inl (KeyError (''PY_'' @ n))"
    by (simp add: process_var_def)
  from pending have "notdone \<noteq> []" by auto
  with step show ?thesis
    by (auto intro!: interpolate_raises)
qed


theorem renamed_fallback_KeyError_witness:
  "parse_makefile insertion_order Map.empty [''XX = $(CFLAGS) -g''] Map.empty = Some (Inl (KeyError ''PY_CFLAGS''))"
proof -
  have scan: "scan_lines [''XX = $(CFLAGS) -g''] (Map.empty, []) = (Map.empty, [(''XX'', ''$(CFLAGS) -g'')])"
    by (simp add: scan_line_def regex_defs strip_def char_class_defs)
  have ref: "findvar ''$(CFLAGS) -g'' = Some (0, 9, ''CFLAGS'')"
    by (simp add: regex_defs char_class_defs)
  have "interpolate insertion_order Map.empty (Map.empty, [(''XX'', ''$(CFLAGS) -g'')])
      = Some (Inl (KeyError (''PY_'' @ ''CFLAGS'')))"
    using renamed_fallback_KeyError [of "[(''XX'', ''$(CFLAGS) -g'')]" "''XX''" "''$(CFLAGS) -g''"
        0 9 "''CFLAGS''" Map.empty Map.empty insertion_order, OF _ ref]
    by (simp add: renamed_variables_def insertion_order_def)
  with scan show ?thesis by (simp add: parse_makefile_def)
qed

text \<open>
  Claim C2. The reference \<open>n\<close> found in the value of a pending variable is resolved in
  this order: (a) a value in \<open>done\<close> is substituted; (b) else, when \<open>n\<close> is pending, the
  variable is left for a later sweep (nothing changes); (c) else a value in the process
  environment is substituted; (d) else, for \<open>n\<close> among \<open>CFLAGS\<close>, \<open>LDFLAGS\<close>, \<open>CPPFLAGS\<close>,
  the rule of the prefix \<open>PY_\<close> applies: the empty string for a pending variable that is
  itself a \<open>PY_\<close> name of a renamed variable, a later sweep when \<open>PY_n\<close> is pending, and
  the resolved value of \<open>PY_n\<close> otherwise (so, with \<open>PY_CFLAGS\<close> resolved, \<open>CFLAGS\<close> not
  defined in the file and absent from the environment, \<open>$(CFLAGS)\<close> becomes the value of
  \<open>PY_CFLAGS\<close>); (e) otherwise the empty string is substituted and \<open>n\<close> is stored in
  \<open>done\<close> with the empty string.
\<close>

theorem reference_resolution_priority:
  assumes pending: "map_of notdone name = Some value"
    and ref: "findvar value = Some (b, e, n)"
  shows
    "(\<forall>v. done n = Some v \<longrightarrow>
        process_var env name (done, notdone)
          = Inr (substitute name value b e (py_str v) (done, notdone)))
     \<and> (done n = None \<and> map_of notdone n \<noteq> None \<longrightarrow>
        process_var env name (done, notdone) = Inr (done, notdone))
     \<and> (\<forall>x. done n = None \<and> map_of notdone n = None \<and> env n = Some x \<longrightarrow>
        process_var env name (done, notdone)
          = Inr (substitute name value b e x (done, notdone)))
     \<and> (done n = None \<and> map_of notdone n = None \<and> env n = None
          \<and> n \<in> set renamed_variables \<longrightarrow>
        (is_py_renamed name \<longrightarrow>
           process_var env name (done, notdone)
             = Inr (substitute name value b e [] (done, notdone)))
        \<and> (\<not> is_py_renamed name \<and> map_of notdone (''PY_'' @ n) \<noteq> None \<longrightarrow>
           process_var env name (done, notdone) = Inr (done, notdone))
        \<and> (\<forall>w. \<not> is_py_renamed name \<and> map_of notdone (''PY_'' @ n) = None
              \<and> done (''PY_'' @ n) = Some w \<longrightarrow>
           process_var env name (done, notdone)
             = Inr (substitute name value b e (py_str w) (done, notdone))))
     \<and> (done n = None \<and> map_of notdone n = None \<and> env n = None
          \<and> n \<notin> set renamed_variables \<longrightarrow>
        process_var env name (done, notdone)
          = Inr (substitute name value b e [] (done(n \<mapsto> PStr []), notdone)))"
  using pending ref by (simp add: process_var_def resolve_def)

theorem reference_resolution_priority_witness:
  "process_var Map.empty ''BB'' ([''AA'' \<mapsto> PInt 1], [(''BB'', ''$(AA)2'')])
     = Inr (substitute ''BB'' ''$(AA)2'' 0 5 ''1'' ([''AA'' \<mapsto> PInt 1], [(''BB'', ''$(AA)2'')]))
   \<and> process_var Map.empty ''AA'' (Map.empty, [(''AA'', ''$(BB)''), (''BB'', ''$(AA)'')])
     = Inr (Map.empty, [(''AA'', ''$(BB)''), (''BB'', ''$(AA)'')])
   \<and> process_var [''AB'' \<mapsto> ''v''] ''XX'' (Map.empty, [(''XX'', ''$(AB)'')])
     = Inr (substitute ''XX'' ''$(AB)'' 0 5 ''v'' (Map.empty, [(''XX'', ''$(AB)'')]))
   \<and> process_var Map.empty ''PY_CFLAGS'' (Map.empty, [(''PY_CFLAGS'', ''$(CFLAGS)'')])
     = Inr (substitute ''PY_CFLAGS'' ''$(CFLAGS)'' 0 9 [] (Map.empty, [(''PY_CFLAGS'', ''$(CFLAGS)'')]))
   \<and> process_var Map.empty ''XX'' (Map.empty, [(''XX'', ''$(CFLAGS)''), (''PY_CFLAGS'', ''$(CFLAGS)'')])
     = Inr (Map.empty, [(''XX'', ''$(CFLAGS)''), (''PY_CFLAGS'', ''$(CFLAGS)'')])
   \<and> process_var Map.empty ''XX'' ([''PY_CFLAGS'' \<mapsto> PStr ''-O2''], [(''XX'', ''$(CFLAGS)'')])
     = Inr (substitute ''XX'' ''$(CFLAGS)'' 0 9 ''-O2''
              ([''PY_CFLAGS'' \<mapsto> PStr ''-O2''], [(''XX'', ''$(CFLAGS)'')]))
   \<and> process_var Map.empty ''XX'' (Map.empty, [(''XX'', ''$(AB)'')])
     = Inr (substitute ''XX'' ''$(AB)'' 0 5 [] ([''AB'' \<mapsto> PStr []], [(''XX'', ''$(AB)'')]))
   \<and> parse_makefile insertion_order Map.empty [''PY_CFLAGS = -O2'', ''XX = $(CFLAGS)''] Map.empty
     = Some (Inr [''PY_CFLAGS'' \<mapsto> PStr ''-O2'', ''XX'' \<mapsto> PStr ''-O2''])"
proof -
  let ?done = "[''PY_CFLAGS'' \<mapsto> PStr ''-O2'']"
  let ?notdone = "[(''XX'', ''$(CFLAGS)'')]"
  have ref: "findvar ''$(CFLAGS)'' = Some (0, 9, ''CFLAGS'')"
    by (simp add: regex_defs char_class_defs)
  have refA: "findvar ''$(AA)2'' = Some (0, 5, ''AA'')"
    and refB: "findvar ''$(BB)'' = Some (0, 5, ''BB'')"
    and refC: "findvar ''$(AB)'' = Some (0, 5, ''AB'')"
    by (simp_all add: regex_defs char_class_defs)
  have npy: "\<not> is_py_renamed ''XX''" and py: "is_py_renamed ''PY_CFLAGS''"
    by (simp_all add: is_py_renamed_def renamed_variables_def)
  have a: "process_var Map.empty ''BB'' ([''AA'' \<mapsto> PInt 1], [(''BB'', ''$(AA)2'')])
     = Inr (substitute ''BB'' ''$(AA)2'' 0 5 ''1'' ([''AA'' \<mapsto> PInt 1], [(''BB'', ''$(AA)2'')]))"
    using reference_resolution_priority [OF _ refA, of "[(''BB'', ''$(AA)2'')]" "''BB''"
        "[''AA'' \<mapsto> PInt 1]" Map.empty]
    by (simp add: py_str_def str_nat.simps)
  have b: "process_var Map.empty ''AA'' (Map.empty, [(''AA'', ''$(BB)''), (''BB'', ''$(AA)'')])
     = Inr (Map.empty, [(''AA'', ''$(BB)''), (''BB'', ''$(AA)'')])"
    using reference_resolution_priority [OF _ refB, of "[(''AA'', ''$(BB)''), (''BB'', ''$(AA)'')]"
        "''AA''" Map.empty Map.empty]
    by simp
  have c: "process_var [''AB'' \<mapsto> ''v''] ''XX'' (Map.empty, [(''XX'', ''$(AB)'')])
     = Inr (substitute ''XX'' ''$(AB)'' 0 5 ''v'' (Map.empty, [(''XX'', ''$(AB)'')]))"
    using reference_resolution_priority [OF _ refC, of "[(''XX'', ''$(AB)'')]" "''XX''"
        Map.empty "[''AB'' \<mapsto> ''v'']"]
    by simp
  have d1: "process_var Map.empty ''PY_CFLAGS'' (Map.empty, [(''PY_CFLAGS'', ''$(CFLAGS)'')])
     = Inr (substitute ''PY_CFLAGS'' ''$(CFLAGS)'' 0 9 [] (Map.empty, [(''PY_CFLAGS'', ''$(CFLAGS)'')]))"
    using reference_resolution_priority [OF _ ref, of "[(''PY_CFLAGS'', ''$(CFLAGS)'')]"
        "''PY_CFLAGS''" Map.empty Map.empty] py
    by (simp add: renamed_variables_def)
  have d2: "process_var Map.empty ''XX'' (Map.empty, [(''XX'', ''$(CFLAGS)''), (''PY_CFLAGS'', ''$(CFLAGS)'')])
     = Inr (Map.empty, [(''XX'', ''$(CFLAGS)''), (''PY_CFLAGS'', ''$(CFLAGS)'')])"
    using reference_resolution_priority [OF _ ref,
        of "[(''XX'', ''$(CFLAGS)''), (''PY_CFLAGS'', ''$(CFLAGS)'')]" "''XX''" Map.empty Map.empty] npy
    by (simp add: renamed_variables_def)
  have d3: "process_var Map.empty ''XX'' (?done, ?notdone)
      = Inr (substitute ''XX'' ''$(CFLAGS)'' 0 9 ''-O2'' (?done, ?notdone))"
    using reference_resolution_priority [OF _ ref, of ?notdone "''XX''" ?done Map.empty] npy
    by (simp add: renamed_variables_def py_str_def)
  have e: "process_var Map.empty ''XX'' (Map.empty, [(''XX'', ''$(AB)'')])
     = Inr (substitute ''XX'' ''$(AB)'' 0 5 [] ([''AB'' \<mapsto> PStr []], [(''XX'', ''$(AB)'')]))"
    using reference_resolution_priority [OF _ refC, of "[(''XX'', ''$(AB)'')]" "''XX''"
        Map.empty Map.empty]
    by (simp add: renamed_variables_def)
  have scan: "scan_lines [''PY_CFLAGS = -O2'', ''XX = $(CFLAGS)''] (Map.empty, []) = (?done, ?notdone)"
    by (simp add: scan_line_def regex_defs int_defs char_class_defs)
  have "substitute ''XX'' ''$(CFLAGS)'' 0 9 ''-O2'' (?done, ?notdone)
      = (?done(''XX'' \<mapsto> PStr ''-O2''), [])"
    by (simp add: substitute_def Let_def int_defs char_class_defs is_py_renamed_def)
  with d3 have step: "process_var Map.empty ''XX'' (?done, ?notdone)
      = Inr (?done(''XX'' \<mapsto> PStr ''-O2''), [])"
    by simp
  have "interpolate insertion_order Map.empty (?done, ?notdone)
      = interpolate insertion_order Map.empty (?done(''XX'' \<mapsto> PStr ''-O2''), [])"
    by (rule interpolate_step) (simp_all add: insertion_order_def step)
  then have "interpolate insertion_order Map.empty
      (scan_lines [''PY_CFLAGS = -O2'', ''XX = $(CFLAGS)''] (Map.empty, []))
      = Some (Inr (?done(''XX'' \<mapsto> PStr ''-O2'')))"
    by (simp only: scan interpolate_done)
  then have p: "parse_makefile insertion_order Map.empty [''PY_CFLAGS = -O2'', ''XX = $(CFLAGS)''] Map.empty
     = Some (Inr [''PY_CFLAGS'' \<mapsto> PStr ''-O2'', ''XX'' \<mapsto> PStr ''-O2''])"
    unfolding parse_makefile_def
    by (auto simp: map_add_def strip_value_def strip_def char_class_defs)
  from a b c d1 d2 d3 e p show ?thesis by (simp only: simp_thms)
qed

lemma is_py_renamed_drop_neq: "is_py_renamed name \<Longrightarrow> drop 3 name \<noteq> name"
proof
  assume a: "is_py_renamed name" and b: "drop 3 name = name"
  from a have "length (take 3 name) = 3" by (simp add: is_py_renamed_def)
  then have "3 \<le> length name" by simp
  moreover from b have "length (drop 3 name) = length name" by simp
  ultimately show False by simp
qed

lemma scan_AA_BB:
  "scan_lines [''AA = 1'', ''BB = $(AA)2''] (Map.empty, [])
     = ([''AA'' \<mapsto> PInt 1], [(''BB'', ''$(AA)2'')])"
  by (simp add: scan_line_def regex_defs int_defs char_class_defs)

lemma scan_A_B:
  "scan_lines [''A = 1'', ''B = $(A)2''] (Map.empty, []) = (Map.empty, [])"
  by (simp add: scan_line_def regex_defs char_class_defs)

lemma findvar_BB: "findvar ''$(AA)2'' = Some (0, 5, ''AA'')"
  by (simp add: regex_defs char_class_defs)

lemma py_int_12: "py_int ''12'' = Some 12"
  by (simp add: int_defs char_class_defs)

lemma process_BB:
  "process_var env ''BB'' ([''AA'' \<mapsto> PInt 1], [(''BB'', ''$(AA)2'')])
     = Inr ([''AA'' \<mapsto> PInt 1, ''BB'' \<mapsto> PInt 12], [])"
  by (simp add: process_var_def findvar_BB resolve_def substitute_def Let_def py_str_def
      str_nat.simps py_int_12 is_py_renamed_def)

lemma parse_AA_BB:
  "parse_makefile insertion_order env [''AA = 1'', ''BB = $(AA)2''] Map.empty
     = Some (Inr [''AA'' \<mapsto> PInt 1, ''BB'' \<mapsto> PInt 12])"
proof -
  have "interpolate insertion_order env ([''AA'' \<mapsto> PInt 1], [(''BB'', ''$(AA)2'')])
      = interpolate insertion_order env ([''AA'' \<mapsto> PInt 1, ''BB'' \<mapsto> PInt 12], [])"
    by (rule interpolate_step) (simp_all add: insertion_order_def process_BB)
  then have "interpolate insertion_order env (scan_lines [''AA = 1'', ''BB = $(AA)2''] (Map.empty, []))
      = Some (Inr [''AA'' \<mapsto> PInt 1, ''BB'' \<mapsto> PInt 12])"
    by (simp only: scan_AA_BB interpolate_done)
  then show ?thesis
    unfolding parse_makefile_def by (auto simp: map_add_def strip_value_def)
qed

section \<open>Claims on the typing of substituted values\<close>

text \<open>
  Claim C3 says that a value assembled by substitution is not parsed as an integer
  again, so that \<open>A = 1\<close> and \<open>B = $(A)2\<close> give the string \<open>12\<close> for \<open>B\<close>. The code does
  parse it again (\<open>try: value = int(value)\<close> after the substitution): with names that
  the assignment pattern accepts, \<open>AA = 1\<close> and \<open>BB = $(AA)2\<close> give the integer 12 for
  \<open>BB\<close>. With the one-letter names of the claim the two lines are not assignments for
  the pattern, and the result has no \<open>B\<close> at all.
\<close>

theorem substituted_value_counterexample:
  "parse_makefile insertion_order Map.empty [''A = 1'', ''B = $(A)2''] Map.empty
     = Some (Inr Map.empty)
   \<and> parse_makefile insertion_order Map.empty [''AA = 1'', ''BB = $(AA)2''] Map.empty
     = Some (Inr [''AA'' \<mapsto> PInt 1, ''BB'' \<mapsto> PInt 12])
   \<and> PInt 12 \<noteq> PStr ''12''"
proof -
  have "interpolate insertion_order Map.empty (scan_lines [''A = 1'', ''B = $(A)2''] (Map.empty, []))
      = Some (Inr Map.empty)"
    by (simp only: scan_A_B interpolate_done)
  then have "parse_makefile insertion_order Map.empty [''A = 1'', ''B = $(A)2''] Map.empty
      = Some (Inr Map.empty)"
    unfolding parse_makefile_def by (simp add: map_add_def)
  then show ?thesis by (simp add: parse_AA_BB)
qed

text \<open>
  Claim C3 as amended. A value assembled by substitution is parsed as an integer again:
  when the text after the replaced reference has no dollar sign, the variable is stored
  as the integer that the assembled text parses as, and as the stripped text only when
  it does not parse. Given \<open>AA = 1\<close> and \<open>BB = $(AA)2\<close>, the result has \<open>BB\<close> equal to
  the integer 12.
\<close>

theorem substituted_value_reparsed:
  "(CHR ''$'' \<notin> set (drop e value) \<longrightarrow>
      fst (substitute name value b e item st) name
        = Some (case py_int (take b value @ item @ drop e value) of
                  Some i \<Rightarrow> PInt i
                | None \<Rightarrow> PStr (strip (take b value @ item @ drop e value))))
   \<and> parse_makefile insertion_order env [''AA = 1'', ''BB = $(AA)2''] Map.empty
       = Some (Inr [''AA'' \<mapsto> PInt 1, ''BB'' \<mapsto> PInt 12])"
  by (auto simp: parse_AA_BB substitute_def Let_def is_py_renamed_drop_neq split: option.splits)

theorem substituted_value_reparsed_witness:
  "CHR ''$'' \<notin> set (drop 5 ''$(AA)2'')
   \<and> fst (substitute ''BB'' ''$(AA)2'' 0 5 ''1'' ([''AA'' \<mapsto> PInt 1], [(''BB'', ''$(AA)2'')])) ''BB''
       = Some (PInt 12)
   \<and> parse_makefile insertion_order Map.empty [''AA = 1'', ''BB = $(AA)2''] Map.empty
       = Some (Inr [''AA'' \<mapsto> PInt 1, ''BB'' \<mapsto> PInt 12])"
  using substituted_value_reparsed [of 5 "''$(AA)2''" "''BB''" 0 "''1''"
      "([''AA'' \<mapsto> PInt 1], [(''BB'', ''$(AA)2'')])" Map.empty]
  by (simp add: py_int_12)

lemma rev_dropWhile_rev_take:
  "rev (dropWhile P (rev u)) = take (length u - length (takeWhile P (rev u))) u"
  by (simp add: dropWhile_eq_drop rev_drop)

lemma trimmed_strip: "trimmed (strip s)"
proof (cases "strip s = []")
  case True
  then show ?thesis by (simp add: trimmed_def)
next
  case False
  let ?u = "dropWhile is_space s"
  let ?d = "dropWhile is_space (rev ?u)"
  have t: "strip s = rev ?d" by (simp add: strip_def)
  with False have d: "?d \<noteq> []" by simp
  then have "\<not> is_space (hd ?d)" by (rule hd_dropWhile)
  with d have l: "\<not> is_space (last (strip s))" by (simp add: t last_rev)
  have tk: "strip s = take (length ?u - length (takeWhile is_space (rev ?u))) ?u"
    unfolding t by (rule rev_dropWhile_rev_take)
  with False have u: "?u \<noteq> []" by auto
  from tk False have "hd (strip s) = hd ?u"
    by (metis hd_take take_eq_Nil2 gr0I)
  moreover from u have "\<not> is_space (hd ?u)" by (rule hd_dropWhile)
  ultimately show ?thesis using l by (simp add: trimmed_def)
qed

lemma strip_trimmed: "trimmed s \<Longrightarrow> strip s = s"
proof (cases "s = []")
  case True
  then show ?thesis by (simp add: strip_def)
next
  case False
  assume "trimmed s"
  with False have h: "\<not> is_space (hd s)" and l: "\<not> is_space (last s)"
    by (simp_all add: trimmed_def)
  from False h have 1: "dropWhile is_space s = s" by (cases s) simp_all
  from False l have 2: "dropWhile is_space (rev s) = rev s"
    by (cases "rev s") (simp_all add: last_rev [symmetric] hd_rev)
  show ?thesis by (simp add: strip_def 1 2)
qed

lemma parse_makefile_result:
  assumes "parse_makefile ord env fp g = Some (Inr res)"
  obtains dn where "interpolate ord env (scan_lines fp (Map.empty, [])) = Some (Inr dn)"
    and "res = g ++ (map_option strip_value \<circ> dn)"
  using assms by (auto simp: parse_makefile_def split: option.splits sum.splits)

lemmas step_defs = process_var_def resolve_def substitute_def Let_def py_str_def is_py_renamed_def
  renamed_variables_def

lemma scan_PY:
  "scan_lines [''PY_CFLAGS = $(XX) -O2''] (Map.empty, [])
     = (Map.empty, [(''PY_CFLAGS'', ''$(XX) -O2'')])"
  by (simp add: scan_line_def regex_defs strip_def char_class_defs)

lemma findvar_PY: "findvar ''$(XX) -O2'' = Some (0, 5, ''XX'')"
  by (simp add: regex_defs char_class_defs)

lemma py_int_O2: "py_int '' -O2'' = None"
  by (simp add: int_defs char_class_defs)

lemma strip_O2: "strip '' -O2'' = ''-O2''" "strip ''-O2'' = ''-O2''" "strip [] = []"
  by (simp_all add: strip_def char_class_defs)

lemma process_PY:
  "process_var Map.empty ''PY_CFLAGS'' (Map.empty, [(''PY_CFLAGS'', ''$(XX) -O2'')])
     = Inr ([''XX'' \<mapsto> PStr [], ''PY_CFLAGS'' \<mapsto> PStr ''-O2'', ''CFLAGS'' \<mapsto> PStr '' -O2''], [])"
  by (simp add: step_defs findvar_PY py_int_O2 strip_O2 int_or_str_def)

lemma parse_PY:
  "parse_makefile insertion_order Map.empty [''PY_CFLAGS = $(XX) -O2''] Map.empty
     = Some (Inr [''XX'' \<mapsto> PStr [], ''PY_CFLAGS'' \<mapsto> PStr ''-O2'', ''CFLAGS'' \<mapsto> PStr ''-O2''])"
proof -
  have "interpolate insertion_order Map.empty (Map.empty, [(''PY_CFLAGS'', ''$(XX) -O2'')])
      = interpolate insertion_order Map.empty
          ([''XX'' \<mapsto> PStr [], ''PY_CFLAGS'' \<mapsto> PStr ''-O2'', ''CFLAGS'' \<mapsto> PStr '' -O2''], [])"
    by (rule interpolate_step) (simp_all add: insertion_order_def process_PY)
  then have "interpolate insertion_order Map.empty (scan_lines [''PY_CFLAGS = $(XX) -O2''] (Map.empty, []))
      = Some (Inr [''XX'' \<mapsto> PStr [], ''PY_CFLAGS'' \<mapsto> PStr ''-O2'', ''CFLAGS'' \<mapsto> PStr '' -O2''])"
    by (simp only: scan_PY interpolate_done)
  then show ?thesis
    unfolding parse_makefile_def by (auto simp: map_add_def strip_value_def strip_O2)
qed

lemma match_CC: "variable_rx_match ''CC = gcc $$x'' = Some (''CC'', ''gcc $$x'')"
  by (simp add: regex_defs char_class_defs)

lemma strip_CC: "strip ''gcc $$x'' = ''gcc $$x''"
  by (simp add: strip_def char_class_defs)

lemma py_int_CC: "py_int ''gcc $$x'' = None"
  by (simp add: int_defs char_class_defs)

section \<open>Claims on the first pass and the final pass\<close>

text \<open>
  Claim C5. Every line that the assignment pattern matches is classified at once: when
  the right-hand side, stripped, has no dollar sign after the removal of the \<open>$$\<close> pairs,
  it is stored in \<open>done\<close>, as an integer when the stripped text parses as one and else as
  the string with every \<open>$$\<close> replaced by one \<open>$\<close>; otherwise the variable goes to the
  pending set with the stripped text. After the sweep loop every string value that the
  parse produced has no white space at either end (an entry of the dictionary \<open>g\<close> that
  the parse did not set is passed on as it is).
\<close>

theorem classification_and_final_strip:
  "(variable_rx_match line = Some (n, v0) \<longrightarrow>
      scan_line line (done, notdone) =
        (if CHR ''$'' \<notin> set (replace_dollars [] (strip v0))
         then (done(n \<mapsto> (case py_int (strip v0) of
                              Some i \<Rightarrow> PInt i
                            | None \<Rightarrow> PStr (replace_dollars ''$'' (strip v0)))), notdone)
         else (done, AList.update n (strip v0) notdone)))
   \<and> (parse_makefile ord env fp g = Some (Inr res) \<and> res k = Some (PStr s) \<longrightarrow>
        trimmed s \<or> res k = g k)"
proof (intro conjI impI)
  assume "variable_rx_match line = Some (n, v0)"
  then show "scan_line line (done, notdone) =
        (if CHR ''$'' \<notin> set (replace_dollars [] (strip v0))
         then (done(n \<mapsto> (case py_int (strip v0) of
                              Some i \<Rightarrow> PInt i
                            | None \<Rightarrow> PStr (replace_dollars ''$'' (strip v0)))), notdone)
         else (done, AList.update n (strip v0) notdone))"
    by (simp add: scan_line_def Let_def split: option.splits)
next
  assume a: "parse_makefile ord env fp g = Some (Inr res) \<and> res k = Some (PStr s)"
  then obtain dn where res: "res = g ++ (map_option strip_value \<circ> dn)"
    by (auto elim: parse_makefile_result)
  show "trimmed s \<or> res k = g k"
  proof (cases "dn k")
    case None
    then show ?thesis by (simp add: res map_add_def)
  next
    case (Some v)
    with a res have "strip_value v = PStr s" by (simp add: map_add_def)
    then have "\<exists>s0. s = strip s0" by (cases v) (auto simp: strip_value_def)
    then show ?thesis using trimmed_strip by blast
  qed
qed

theorem classification_and_final_strip_witness:
  "variable_rx_match ''CC = gcc $$x'' = Some (''CC'', ''gcc $$x'')
   \<and> scan_line ''CC = gcc $$x'' (Map.empty, []) = ([''CC'' \<mapsto> PStr ''gcc $x''], [])
   \<and> parse_makefile insertion_order Map.empty [''PY_CFLAGS = $(XX) -O2''] Map.empty
     = Some (Inr [''XX'' \<mapsto> PStr [], ''PY_CFLAGS'' \<mapsto> PStr ''-O2'', ''CFLAGS'' \<mapsto> PStr ''-O2''])
   \<and> trimmed ''-O2''"
  using classification_and_final_strip [of "''CC = gcc $$x''" "''CC''" "''gcc $$x''" Map.empty "[]"
      insertion_order Map.empty "[''PY_CFLAGS = $(XX) -O2'']" Map.empty
      "[''XX'' \<mapsto> PStr [], ''PY_CFLAGS'' \<mapsto> PStr ''-O2'', ''CFLAGS'' \<mapsto> PStr ''-O2'']"
      "''CFLAGS''" "''-O2''"]
  by (simp add: match_CC strip_CC py_int_CC parse_PY)

lemma resolve_done_other:
  assumes "resolve env done notdone name n = Inr (item, done1)" and "k \<in> set renamed_variables"
  shows "done1 k = done k"
  using assms by (auto simp: resolve_def split: option.splits if_splits)

lemma strip_value_int_or_str:
  "strip_value (int_or_str v) = (case py_int v of Some i \<Rightarrow> PInt i | None \<Rightarrow> PStr (strip v))"
  by (simp add: strip_value_def int_or_str_def split: option.splits)

lemma py_prefixed_example:
  "resolve Map.empty Map.empty [(''PY_CFLAGS'', ''$(XX) -O2'')] ''PY_CFLAGS'' ''XX''
     = Inr (Some [], [''XX'' \<mapsto> PStr []])"
  by (simp add: resolve_def renamed_variables_def)

lemma py_prefixed_example2:
  "resolve Map.empty [''CFLAGS'' \<mapsto> PStr ''-g''] [(''PY_CFLAGS'', ''$(XX) -O2'')] ''PY_CFLAGS'' ''XX''
     = Inr (Some [], [''CFLAGS'' \<mapsto> PStr ''-g'', ''XX'' \<mapsto> PStr []])"
  by (simp add: resolve_def renamed_variables_def)

lemma match_var_here:
  assumes "ref_name n" and "\<not> is_word cl"
  shows "match_var op cl (CHR ''$'' # op # n @ cl # post) \<noteq> None"
proof -
  from assms(1) obtain c r where n: "n = c # r" and c: "is_alpha c" and r: "list_all is_word r"
    by (auto simp: ref_name_def split: list.splits)
  from r assms(2) have "dropWhile is_word (r @ cl # post) = cl # post"
    by (rule dropWhile_run)
  with c show ?thesis by (simp add: match_var_def n)
qed

lemma search_var_complete:
  assumes "ref_name n" and "\<not> is_word cl"
  shows "search_var op cl (pre @ CHR ''$'' # op # n @ cl # post) \<noteq> None"
proof (induction pre)
  case Nil
  from match_var_here [OF assms, of op post] show ?case by (auto split: option.splits)
next
  case (Cons x pre)
  then show ?case by (auto split: option.splits)
qed

lemma findvar_complete: "has_reference s n \<Longrightarrow> findvar s \<noteq> None"
proof -
  assume "has_reference s n"
  then obtain pre post where rn: "ref_name n"
    and s: "s = pre @ CHR ''$'' # CHR ''('' # n @ CHR '')'' # post
          \<or> s = pre @ CHR ''$'' # CHR ''{'' # n @ CHR ''}'' # post"
    by (auto simp: has_reference_def)
  have 1: "\<not> is_word (CHR '')'')" and 2: "\<not> is_word (CHR ''}'')"
    by (simp_all add: char_class_defs)
  from s show ?thesis
  proof
    assume "s = pre @ CHR ''$'' # CHR ''('' # n @ CHR '')'' # post"
    with search_var_complete [OF rn 1, of "CHR ''(''" pre post]
    show ?thesis by (auto simp: findvar_def findvar1_rx_search_def split: option.splits)
  next
    assume "s = pre @ CHR ''$'' # CHR ''{'' # n @ CHR ''}'' # post"
    with search_var_complete [OF rn 2, of "CHR ''{''" pre post]
    show ?thesis by (auto simp: findvar_def findvar2_rx_search_def split: option.splits)
  qed
qed

lemma match_var_sound:
  assumes "match_var op cl s = Some (e, n)"
  shows "ref_name n \<and> e = length n + 3 \<and> e \<le> length s \<and> s = CHR ''$'' # op # n @ cl # drop e s"
proof -
  from assms obtain c r x r1 where s: "s = CHR ''$'' # op # c # r" and c: "is_alpha c"
    and dw: "dropWhile is_word r = cl # r1" and n: "n = c # takeWhile is_word r"
    and e: "e = length (takeWhile is_word r) + 4"
    by (auto simp: match_var_def split: list.splits if_splits)
  have r: "r = takeWhile is_word r @ cl # r1" using dw by (metis takeWhile_dropWhile_id)
  have rn: "ref_name n" unfolding n ref_name_def using c
    by (auto simp: list_all_iff dest: set_takeWhileD)
  have len: "length r = length (takeWhile is_word r) + Suc (length r1)"
    by (subst r) simp
  have e4: "e = Suc (Suc (Suc (Suc (length (takeWhile is_word r)))))" by (simp add: e)
  have "drop e s = drop (Suc (length (takeWhile is_word r))) r" by (simp add: s e4)
  also have "\<dots> = r1" by (subst (2) r) simp
  finally have d: "drop e s = r1" .
  from r have "s = CHR ''$'' # op # n @ cl # r1" by (simp add: s n)
  with d rn e n s len show ?thesis by simp
qed

lemma search_var_sound:
  "search_var op cl s = Some (b, e, n) \<Longrightarrow>
     ref_name n \<and> e = b + length n + 3 \<and> e \<le> length s
     \<and> s = take b s @ CHR ''$'' # op # n @ cl # drop e s"
proof (induction s arbitrary: b e)
  case Nil
  then show ?case by simp
next
  case (Cons x s)
  show ?case
  proof (cases "match_var op cl (x # s)")
    case (Some p)
    with Cons.prems have b: "b = 0" and m: "match_var op cl (x # s) = Some (e, n)"
      by (cases p; simp)+
    have 1: "ref_name n" and 2: "e = length n + 3" and 3: "e \<le> length (x # s)"
      and 4: "x # s = CHR ''$'' # op # n @ cl # drop e (x # s)"
      using match_var_sound [OF m] by blast+
    from 2 have 5: "e = 0 + length n + 3" by simp
    from 4 have 6: "x # s = take 0 (x # s) @ CHR ''$'' # op # n @ cl # drop e (x # s)"
      by (simp only: take_0 append_Nil)
    from 1 5 3 6 show ?thesis unfolding b by blast
  next
    case None
    with Cons.prems obtain b' e' where sv: "search_var op cl s = Some (b', e', n)"
      and b: "b = Suc b'" and e: "e = Suc e'"
      by auto
    have 1: "ref_name n" and 2: "e' = b' + length n + 3" and 3: "e' \<le> length s"
      and 4: "s = take b' s @ CHR ''$'' # op # n @ cl # drop e' s"
      using Cons.IH [OF sv] by blast+
    from 2 have 5: "Suc e' = Suc b' + length n + 3" by simp
    from 3 have 6: "Suc e' \<le> length (x # s)" by simp
    from 4 have 7: "x # s = take (Suc b') (x # s) @ CHR ''$'' # op # n @ cl # drop (Suc e') (x # s)"
      by (simp only: take_Suc_Cons drop_Suc_Cons append_Cons)
    from 1 5 6 7 show ?thesis unfolding b e by blast
  qed
qed

lemma findvar_sound:
  assumes "findvar s = Some (b, e, n)"
  shows "has_reference s n \<and> b < e \<and> e \<le> length s \<and> s ! b = CHR ''$''"
proof -
  from assms obtain op cl where sv: "search_var op cl s = Some (b, e, n)"
    and ops: "(op = CHR ''('' \<and> cl = CHR '')'') \<or> (op = CHR ''{'' \<and> cl = CHR ''}'')"
    by (auto simp: findvar_def findvar1_rx_search_def findvar2_rx_search_def split: option.splits)
  have rn: "ref_name n" and e: "e = b + length n + 3" and le: "e \<le> length s"
    and s: "s = take b s @ CHR ''$'' # op # n @ cl # drop e s"
    using search_var_sound [OF sv] by blast+
  from e le have bl: "length (take b s) = b" by simp
  have "s ! b = (take b s @ CHR ''$'' # op # n @ cl # drop e s) ! b" using s by simp
  also have "\<dots> = CHR ''$''" using bl by (metis nth_append_length)
  finally have d: "s ! b = CHR ''$''" .
  from ops s rn have "has_reference s n"
    unfolding has_reference_def by auto
  with e le d show ?thesis by simp
qed

lemma scan_AB_XX:
  "scan_lines [''AB = $'', ''XX = $(AB)''] (Map.empty, [])
     = (Map.empty, [(''AB'', ''$''), (''XX'', ''$(AB)'')])"
  by (simp add: scan_line_def regex_defs strip_def char_class_defs)

lemma findvar_bogus: "findvar ''$'' = None"
  by (simp add: regex_defs)

lemma findvar_AB: "findvar ''$(AB)'' = Some (0, 5, ''AB'')"
  by (simp add: regex_defs char_class_defs)

lemma py_int_empty: "py_int [] = None"
  by (simp add: int_defs)

lemma process_AB:
  "process_var Map.empty ''AB'' (Map.empty, [(''AB'', ''$''), (''XX'', ''$(AB)'')])
     = Inr (Map.empty, [(''XX'', ''$(AB)'')])"
  by (simp add: step_defs findvar_bogus)

lemma process_XX:
  "process_var Map.empty ''XX'' (Map.empty, [(''XX'', ''$(AB)'')])
     = Inr ([''AB'' \<mapsto> PStr [], ''XX'' \<mapsto> PStr []], [])"
  by (simp add: step_defs findvar_AB py_int_empty strip_O2)

lemma sweep_AB_XX:
  "sweep Map.empty [''AB'', ''XX''] (Map.empty, [(''AB'', ''$''), (''XX'', ''$(AB)'')])
     = Inr ([''AB'' \<mapsto> PStr [], ''XX'' \<mapsto> PStr []], [])"
  by (simp add: process_AB process_XX)

lemma no_reference_bogus: "\<forall>n. \<not> has_reference ''$'' n"
  using findvar_complete [of "''$''"] findvar_bogus by blast

section \<open>Claims on the prefixed names\<close>

text \<open>
  Claim C6. When a pending variable whose name is \<open>PY_\<close> followed by one of \<open>CFLAGS\<close>,
  \<open>LDFLAGS\<close>, \<open>CPPFLAGS\<close> becomes resolved (its reference is substituted and no dollar sign
  follows), it leaves the pending set, its value is stored under its name and the same
  value is stored under the name without the prefix, unless \<open>done\<close> has that name
  already, in which case that entry is kept. (The copy is the text before \<open>strip()\<close>;
  the final pass strips it, so that both entries end equal.)
\<close>

theorem py_prefixed_value_published:
  assumes pending: "map_of notdone name = Some value"
    and py: "is_py_renamed name"
    and ref: "findvar value = Some (b, e, n)"
    and found: "resolve env done notdone name n = Inr (Some item, done1)"
    and resolved: "CHR ''$'' \<notin> set (drop e value)"
  shows "\<exists>done2 notdone2.
      process_var env name (done, notdone) = Inr (done2, notdone2)
      \<and> map_of notdone2 name = None
      \<and> done2 name = Some (strip_value (int_or_str (take b value @ item @ drop e value)))
      \<and> (done (drop 3 name) = None \<longrightarrow>
           done2 (drop 3 name) = Some (int_or_str (take b value @ item @ drop e value)))
      \<and> (done (drop 3 name) \<noteq> None \<longrightarrow> done2 (drop 3 name) = done (drop 3 name))"
proof -
  let ?v = "take b value @ item @ drop e value"
  from py have ne: "drop 3 name \<noteq> name" by (rule is_py_renamed_drop_neq)
  from py have "drop 3 name \<in> set renamed_variables" by (simp add: is_py_renamed_def)
  with found have d1: "done1 (drop 3 name) = done (drop 3 name)" by (rule resolve_done_other)
  have step: "process_var env name (done, notdone)
      = Inr (substitute name value b e item (done1, notdone))"
    using pending ref found by (simp add: process_var_def)
  show ?thesis
  proof (cases "done (drop 3 name)")
    case None
    with resolved py ne d1 have "substitute name value b e item (done1, notdone)
        = (done1(name \<mapsto> strip_value (int_or_str ?v), drop 3 name \<mapsto> int_or_str ?v),
           AList.delete name notdone)"
      by (auto simp: substitute_def Let_def strip_value_int_or_str split: option.splits)
    with step None ne show ?thesis by (simp add: delete_conv')
  next
    case (Some w)
    with resolved py ne d1 have "substitute name value b e item (done1, notdone)
        = (done1(name \<mapsto> strip_value (int_or_str ?v)), AList.delete name notdone)"
      by (auto simp: substitute_def Let_def strip_value_int_or_str split: option.splits)
    with step Some ne d1 show ?thesis by (simp add: delete_conv')
  qed
qed

theorem py_prefixed_value_published_witness:
  "(\<exists>done2 notdone2.
      process_var Map.empty ''PY_CFLAGS'' (Map.empty, [(''PY_CFLAGS'', ''$(XX) -O2'')])
        = Inr (done2, notdone2)
      \<and> map_of notdone2 ''PY_CFLAGS'' = None
      \<and> done2 ''PY_CFLAGS'' = Some (PStr ''-O2'')
      \<and> done2 ''CFLAGS'' = Some (PStr '' -O2''))
   \<and> (\<exists>done2 notdone2.
      process_var Map.empty ''PY_CFLAGS''
          ([''CFLAGS'' \<mapsto> PStr ''-g''], [(''PY_CFLAGS'', ''$(XX) -O2'')])
        = Inr (done2, notdone2)
      \<and> map_of notdone2 ''PY_CFLAGS'' = None
      \<and> done2 ''PY_CFLAGS'' = Some (PStr ''-O2'')
      \<and> done2 ''CFLAGS'' = Some (PStr ''-g''))
   \<and> strip_value (PStr '' -O2'') = PStr ''-O2''
   \<and> parse_makefile insertion_order Map.empty [''PY_CFLAGS = $(XX) -O2''] Map.empty
     = Some (Inr [''XX'' \<mapsto> PStr [], ''PY_CFLAGS'' \<mapsto> PStr ''-O2'', ''CFLAGS'' \<mapsto> PStr ''-O2''])"
proof -
  have py: "is_py_renamed ''PY_CFLAGS''" by (simp add: is_py_renamed_def renamed_variables_def)
  have nd: "CHR ''$'' \<notin> set (drop 5 ''$(XX) -O2'')" by simp
  have v: "int_or_str '' -O2'' = PStr '' -O2''"
    by (simp add: int_or_str_def py_int_O2)
  have sv: "strip_value (PStr '' -O2'') = PStr ''-O2''" by (simp add: strip_value_def strip_O2)
  have 1: "\<exists>done2 notdone2.
      process_var Map.empty ''PY_CFLAGS'' (Map.empty, [(''PY_CFLAGS'', ''$(XX) -O2'')])
        = Inr (done2, notdone2)
      \<and> map_of notdone2 ''PY_CFLAGS'' = None
      \<and> done2 ''PY_CFLAGS'' = Some (PStr ''-O2'')
      \<and> done2 ''CFLAGS'' = Some (PStr '' -O2'')"
    using py_prefixed_value_published [of "[(''PY_CFLAGS'', ''$(XX) -O2'')]" "''PY_CFLAGS''"
      "''$(XX) -O2''" 0 5 "''XX''" Map.empty Map.empty "[]" "[''XX'' \<mapsto> PStr []]",
      OF _ py findvar_PY py_prefixed_example nd]
    by (simp add: v sv)
  have 2: "\<exists>done2 notdone2.
      process_var Map.empty ''PY_CFLAGS''
          ([''CFLAGS'' \<mapsto> PStr ''-g''], [(''PY_CFLAGS'', ''$(XX) -O2'')])
        = Inr (done2, notdone2)
      \<and> map_of notdone2 ''PY_CFLAGS'' = None
      \<and> done2 ''PY_CFLAGS'' = Some (PStr ''-O2'')
      \<and> done2 ''CFLAGS'' = Some (PStr ''-g'')"
    using py_prefixed_value_published [of "[(''PY_CFLAGS'', ''$(XX) -O2'')]" "''PY_CFLAGS''"
      "''$(XX) -O2''" 0 5 "''XX''" Map.empty "[''CFLAGS'' \<mapsto> PStr ''-g'']" "[]"
      "[''CFLAGS'' \<mapsto> PStr ''-g'', ''XX'' \<mapsto> PStr []]",
      OF _ py findvar_PY py_prefixed_example2 nd]
    by (simp add: v sv)
  from 1 2 sv parse_PY show ?thesis by (simp only: simp_thms)
qed

lemma keys_delete: "fst ` set (AList.delete k al) = fst ` set al - {k}"
proof -
  have "set (map fst (AList.delete k al)) = set (map fst al) - {k}"
    by (simp only: delete_keys set_removeAll)
  then show ?thesis by simp
qed

lemma all_bogus_delete: "all_bogus nd \<Longrightarrow> all_bogus (AList.delete k nd)"
  by (auto simp: all_bogus_def list_all_iff AList.delete_eq)

lemma process_var_bogus:
  assumes "all_bogus nd" and "name \<in> fst ` set nd"
  shows "process_var env name (dn, nd) = Inr (dn, AList.delete name nd)"
proof -
  from assms(2) obtain v where v: "map_of nd name = Some v"
    by (auto dest: weak_map_of_SomeI)
  then have "(name, v) \<in> set nd" by (rule map_of_SomeD)
  with assms(1) have "findvar v = None" by (auto simp: all_bogus_def list_all_iff)
  with v show ?thesis by (simp add: process_var_def)
qed

lemma sweep_all_bogus:
  "all_bogus nd \<Longrightarrow> distinct names \<Longrightarrow> set names \<subseteq> fst ` set nd \<Longrightarrow>
     \<exists>nd1. sweep env names (dn, nd) = Inr (dn, nd1) \<and> fst ` set nd1 = fst ` set nd - set names"
proof (induction names arbitrary: nd)
  case Nil
  then show ?case by simp
next
  case (Cons name names)
  from Cons.prems have mem: "name \<in> fst ` set nd" by simp
  have p: "process_var env name (dn, nd) = Inr (dn, AList.delete name nd)"
    using Cons.prems(1) mem by (rule process_var_bogus)
  from Cons.prems have d: "distinct names" and nn: "name \<notin> set names"
    and sub: "set names \<subseteq> fst ` set nd" by simp_all
  from sub nn have sub': "set names \<subseteq> fst ` set (AList.delete name nd)"
    unfolding keys_delete by blast
  from Cons.IH [OF all_bogus_delete [OF Cons.prems(1)] d sub']
  obtain nd1 where s: "sweep env names (dn, AList.delete name nd) = Inr (dn, nd1)"
    and k: "fst ` set nd1 = fst ` set (AList.delete name nd) - set names"
    by blast
  from k have "fst ` set nd1 = fst ` set nd - set (name # names)"
    unfolding keys_delete by auto
  moreover from p s have "sweep env (name # names) (dn, nd) = Inr (dn, nd1)" by simp
  ultimately show ?case by blast
qed

lemma interpolate_all_bogus:
  assumes "all_bogus nd" and "distinct (ord (map fst nd))"
    and "set (ord (map fst nd)) = set (map fst nd)"
  shows "interpolate ord env (dn, nd) = Some (Inr dn)"
proof (cases "nd = []")
  case True
  then show ?thesis by (simp add: interpolate_done)
next
  case False
  from assms(3) have "set (ord (map fst nd)) \<subseteq> fst ` set nd" by simp
  from sweep_all_bogus [OF assms(1,2) this, of env dn]
  obtain nd1 where s: "sweep env (ord (map fst nd)) (dn, nd) = Inr (dn, nd1)"
    and k: "fst ` set nd1 = fst ` set nd - set (ord (map fst nd))"
    by blast
  from k assms(3) have "fst ` set nd1 = {}" by simp
  then have "nd1 = []" by simp
  with s False have "interpolate ord env (dn, nd) = interpolate ord env (dn, [])"
    by (intro interpolate_step) simp_all
  then show ?thesis by (simp add: interpolate_done)
qed

lemma scan_AB_twice:
  "scan_lines [''AB = 1'', ''AB = $''] (Map.empty, []) = ([''AB'' \<mapsto> PInt 1], [(''AB'', ''$'')])"
  by (simp add: scan_line_def regex_defs int_defs char_class_defs)

section \<open>Claims on bogus references\<close>

text \<open>
  Claim C7 says that a pending variable whose value has a dollar sign but no reference is
  removed from the pending set and omitted from the result. It is removed, but the name
  can come back: with \<open>AB = $\<close> and \<open>XX = $(AB)\<close>, the sweep deletes \<open>AB\<close>, and the
  reference to \<open>AB\<close> in \<open>XX\<close> then finds it nowhere and stores it with the empty string,
  so that the result has \<open>AB\<close>.
\<close>

theorem bogus_reference_counterexample:
  "findvar ''$'' = None
   \<and> parse_makefile insertion_order Map.empty [''AB = $'', ''XX = $(AB)''] Map.empty
       = Some (Inr [''AB'' \<mapsto> PStr [], ''XX'' \<mapsto> PStr []])"
proof -
  have ord: "insertion_order (map fst (snd (Map.empty :: dict, [(''AB'', ''$''), (''XX'', ''$(AB)'')])))
      = [''AB'', ''XX'']"
    by (simp add: insertion_order_def)
  have "interpolate insertion_order Map.empty (Map.empty, [(''AB'', ''$''), (''XX'', ''$(AB)'')])
      = interpolate insertion_order Map.empty ([''AB'' \<mapsto> PStr [], ''XX'' \<mapsto> PStr []], [])"
    by (rule interpolate_step) (simp, simp only: ord sweep_AB_XX)
  then have "interpolate insertion_order Map.empty (scan_lines [''AB = $'', ''XX = $(AB)''] (Map.empty, []))
      = Some (Inr [''AB'' \<mapsto> PStr [], ''XX'' \<mapsto> PStr []])"
    by (simp only: scan_AB_XX interpolate_done)
  then have "parse_makefile insertion_order Map.empty [''AB = $'', ''XX = $(AB)''] Map.empty
       = Some (Inr [''AB'' \<mapsto> PStr [], ''XX'' \<mapsto> PStr []])"
    unfolding parse_makefile_def by (auto simp: map_add_def strip_value_def strip_O2)
  with findvar_bogus show ?thesis by simp
qed

text \<open>
  Claim C7 as amended. A pending variable whose value has no substring of the forms
  \<open>$(NAME)\<close> or \<open>${NAME}\<close> is removed from the pending set by the sweep, without an
  exception; that step stores nothing in \<open>done\<close> and leaves every other pending variable
  as it is, and the sweep goes on with the remaining names. When no pending value has a
  reference, one sweep removes them all and the loop returns \<open>done\<close> as the first pass left
  it: the result is \<open>g\<close> updated with the stripped values of that \<open>done\<close>, so that a
  dropped name is in the result only when the first pass stored it too (another
  assignment of the name) or \<open>g\<close> holds it.
\<close>

theorem bogus_reference_dropped:
  assumes pending: "map_of notdone name = Some value"
    and bogus: "\<forall>n. \<not> has_reference value n"
  shows "process_var env name (done, notdone) = Inr (done, AList.delete name notdone)
    \<and> map_of (AList.delete name notdone) name = None
    \<and> (\<forall>k. k \<noteq> name \<longrightarrow> map_of (AList.delete name notdone) k = map_of notdone k)
    \<and> sweep env (name # names) (done, notdone) = sweep env names (done, AList.delete name notdone)
    \<and> (all_bogus notdone \<and> distinct (ord (map fst notdone))
         \<and> set (ord (map fst notdone)) = set (map fst notdone) \<longrightarrow>
       interpolate ord env (done, notdone) = Some (Inr done)
       \<and> (scan_lines fp (Map.empty, []) = (done, notdone) \<longrightarrow>
            parse_makefile ord env fp g = Some (Inr (g ++ (map_option strip_value \<circ> done)))))"
proof -
  have "findvar value = None"
  proof (cases "findvar value")
    case (Some m)
    then obtain b e n where "findvar value = Some (b, e, n)" by (cases m) auto
    then have "has_reference value n" by (simp add: findvar_sound)
    with bogus show ?thesis by blast
  qed simp
  with pending have step: "process_var env name (done, notdone) = Inr (done, AList.delete name notdone)"
    by (simp add: process_var_def)
  have loop: "interpolate ord env (done, notdone) = Some (Inr done)"
    if "all_bogus notdone \<and> distinct (ord (map fst notdone))
         \<and> set (ord (map fst notdone)) = set (map fst notdone)"
    using that interpolate_all_bogus [of notdone ord env "done"] by blast
  have whole: "parse_makefile ord env fp g = Some (Inr (g ++ (map_option strip_value \<circ> done)))"
    if "interpolate ord env (done, notdone) = Some (Inr done)"
      and "scan_lines fp (Map.empty, []) = (done, notdone)"
    using that by (simp add: parse_makefile_def)
  from step loop whole show ?thesis by (simp add: delete_conv')
qed

theorem bogus_reference_dropped_witness:
  "map_of [(''AB'', ''$''), (''XX'', ''$(AB)'')] ''AB'' = Some ''$''
   \<and> process_var Map.empty ''AB'' (Map.empty, [(''AB'', ''$''), (''XX'', ''$(AB)'')])
       = Inr (Map.empty, [(''XX'', ''$(AB)'')])
   \<and> sweep Map.empty [''AB'', ''XX''] (Map.empty, [(''AB'', ''$''), (''XX'', ''$(AB)'')])
       = sweep Map.empty [''XX''] (Map.empty, [(''XX'', ''$(AB)'')])
   \<and> all_bogus [(''AB'', ''$'')]
   \<and> interpolate insertion_order Map.empty ([''AB'' \<mapsto> PInt 1], [(''AB'', ''$'')])
       = Some (Inr [''AB'' \<mapsto> PInt 1])
   \<and> parse_makefile insertion_order Map.empty [''AB = 1'', ''AB = $''] Map.empty
       = Some (Inr [''AB'' \<mapsto> PInt 1])"
proof -
  have ab: "all_bogus [(''AB'', ''$'')]" by (simp add: all_bogus_def findvar_bogus)
  from bogus_reference_dropped [of "[(''AB'', ''$''), (''XX'', ''$(AB)'')]" "''AB''" "''$''"
      Map.empty Map.empty "[''XX'']", OF _ no_reference_bogus]
  have 1: "process_var Map.empty ''AB'' (Map.empty, [(''AB'', ''$''), (''XX'', ''$(AB)'')])
       = Inr (Map.empty, [(''XX'', ''$(AB)'')])"
    and 2: "sweep Map.empty [''AB'', ''XX''] (Map.empty, [(''AB'', ''$''), (''XX'', ''$(AB)'')])
       = sweep Map.empty [''XX''] (Map.empty, [(''XX'', ''$(AB)'')])"
    by simp_all
  note inst = bogus_reference_dropped [of "[(''AB'', ''$'')]" "''AB''" "''$''"
      Map.empty "[''AB'' \<mapsto> PInt 1]" "[]" insertion_order "[''AB = 1'', ''AB = $'']" Map.empty,
      OF _ no_reference_bogus]
  from inst ab
  have 3: "interpolate insertion_order Map.empty ([''AB'' \<mapsto> PInt 1], [(''AB'', ''$'')])
       = Some (Inr [''AB'' \<mapsto> PInt 1])"
    by (simp add: insertion_order_def)
  from inst ab scan_AB_twice
  have "parse_makefile insertion_order Map.empty [''AB = 1'', ''AB = $''] Map.empty
       = Some (Inr (Map.empty ++ (map_option strip_value \<circ> [''AB'' \<mapsto> PInt 1])))"
    by (simp add: insertion_order_def)
  moreover have "Map.empty ++ (map_option strip_value \<circ> [''AB'' \<mapsto> PInt 1]) = [''AB'' \<mapsto> PInt 1]"
    by (auto simp: map_add_def strip_value_def)
  ultimately have 4: "parse_makefile insertion_order Map.empty [''AB = 1'', ''AB = $''] Map.empty
       = Some (Inr [''AB'' \<mapsto> PInt 1])"
    by simp
  from 1 2 3 4 ab show ?thesis by simp
qed

lemma interpolate_stuck:
  assumes ne: "snd st \<noteq> []" and stuck: "sweep env (ord (map fst (snd st))) st = Inr st"
  shows "interpolate ord env st = None"
proof (cases "interpolate ord env st")
  case (Some y)
  have "\<not> (ord = ord \<and> env = env \<and> st = st)"
  proof (rule interpolate.raw_induct
      [where P = "\<lambda>ord' env' st' y. \<not> (ord' = ord \<and> env' = env \<and> st' = st)", OF _ Some])
    fix f ord' env' st' y'
    assume IH: "\<And>o' e' s' y. f o' e' s' = Some y \<Longrightarrow> \<not> (o' = ord \<and> e' = env \<and> s' = st)"
      and eq: "(if snd st' = [] then Some (Inr (fst st'))
        else case sweep env' (ord' (map fst (snd st'))) st' of
             Inl err \<Rightarrow> Some (Inl err) | Inr st1 \<Rightarrow> f ord' env' st1) = Some y'"
    show "\<not> (ord' = ord \<and> env' = env \<and> st' = st)"
    proof
      assume same: "ord' = ord \<and> env' = env \<and> st' = st"
      with eq ne stuck have "f ord env st = Some y'" by simp
      with IH show False by blast
    qed
  qed
  then show ?thesis by simp
qed simp

lemma substitute_pending:
  "snd (substitute name val b e item st) = AList.delete name (snd st)
   \<or> snd (substitute name val b e item st)
       = AList.update name (take b val @ item @ drop e val) (snd st)"
  by (simp add: substitute_def Let_def)

lemma process_var_pending:
  assumes "process_var env name st = Inr st1"
  shows "\<exists>val. map_of (snd st) name = Some val \<and>
     (snd st1 = snd st \<or> snd st1 = AList.delete name (snd st)
      \<or> (\<exists>x. snd st1 = AList.update name x (snd st)))"
proof -
  from assms obtain val where v: "map_of (snd st) name = Some val"
    by (auto simp: process_var_def split: option.splits)
  show ?thesis
  proof (cases "findvar val")
    case None
    with assms v show ?thesis by (auto simp: process_var_def)
  next
    case (Some m)
    obtain b e n where m: "m = (b, e, n)" by (cases m)
    show ?thesis
    proof (cases "resolve env (fst st) (snd st) name n")
      case (Inl err)
      with assms v Some m show ?thesis by (simp add: process_var_def)
    next
      case (Inr p)
      obtain item done1 where p: "p = (item, done1)" by (cases p)
      show ?thesis
      proof (cases item)
        case None
        with assms v Some m Inr p show ?thesis by (auto simp: process_var_def)
      next
        case (Some x)
        with assms v \<open>findvar val = Some m\<close> m Inr p
        have "st1 = substitute name val b e x (done1, snd st)"
          by (auto simp: process_var_def)
        with substitute_pending [of name val b e x "(done1, snd st)"] v show ?thesis
          by auto
      qed
    qed
  qed
qed

lemma process_var_keys:
  assumes "process_var env name st = Inr st1"
  shows "set (map fst (snd st1)) \<subseteq> set (map fst (snd st))"
proof -
  from process_var_pending [OF assms] obtain val where v: "map_of (snd st) name = Some val"
    and c: "snd st1 = snd st \<or> snd st1 = AList.delete name (snd st)
      \<or> (\<exists>x. snd st1 = AList.update name x (snd st))"
    by blast
  from v have "(name, val) \<in> set (snd st)" by (rule map_of_SomeD)
  then have mem: "name \<in> fst ` set (snd st)" by (rule rev_image_eqI) simp
  have upd: "fst ` set (AList.update name x (snd st)) = fst ` set (snd st)" for x
    using mem by (auto simp: dom_update)
  have del: "fst ` set (AList.delete name (snd st)) \<subseteq> fst ` set (snd st)"
    by (rule dom_delete_subset)
  from c show ?thesis
  proof (elim disjE exE)
    assume "snd st1 = snd st"
    then show ?thesis by simp
  next
    assume "snd st1 = AList.delete name (snd st)"
    with del show ?thesis by simp
  next
    fix x assume "snd st1 = AList.update name x (snd st)"
    with upd [of x] show ?thesis by simp
  qed
qed

lemma sweep_keys:
  "sweep env names st = Inr st1 \<Longrightarrow> set (map fst (snd st1)) \<subseteq> set (map fst (snd st))"
proof (induction names arbitrary: st)
  case Nil
  then show ?case by simp
next
  case (Cons name names)
  from Cons.prems obtain st2 where p: "process_var env name st = Inr st2"
    and s: "sweep env names st2 = Inr st1"
    by (auto split: sum.splits)
  from Cons.IH [OF s] process_var_keys [OF p] show ?case by blast
qed

lemma settles_delete: "settles nd v \<Longrightarrow> settles (AList.delete name nd) v"
  by (auto simp: settles_def delete_conv' split: option.splits)

lemma all_settle_delete:
  assumes "all_settle nd"
  shows "all_settle (AList.delete name nd)"
proof -
  have sub: "set (AList.delete name nd) \<subseteq> set nd" by (auto simp: AList.delete_eq)
  have "settles (AList.delete name nd) v" if "(k, v) \<in> set (AList.delete name nd)" for k v
  proof -
    from that sub have "(k, v) \<in> set nd" by blast
    with assms have "settles nd v" by (auto simp: all_settle_def list_all_iff)
    then show ?thesis by (rule settles_delete)
  qed
  then show ?thesis by (auto simp: all_settle_def list_all_iff)
qed

lemma keys_chain:
  "A \<subseteq> B - N \<Longrightarrow> B \<subseteq> C - {x} \<Longrightarrow> A \<subseteq> C - insert x N"
  by blast

lemma keys_empty: "A \<subseteq> B - C \<Longrightarrow> B \<subseteq> C \<Longrightarrow> A = {}"
  by blast

lemma resolve_not_deferred:
  assumes "map_of nd n = None" and "map_of nd (''PY_'' @ n) = None"
  shows "(\<exists>err. resolve env dn nd name n = Inl err)
    \<or> (\<exists>item done1. resolve env dn nd name n = Inr (Some item, done1))"
  using assms by (auto simp: resolve_def split: option.splits)

lemma process_var_settles:
  assumes al: "all_settle nd"
  shows "(\<exists>err. process_var env name (dn, nd) = Inl err)
    \<or> (\<exists>done1. process_var env name (dn, nd) = Inr (done1, AList.delete name nd))"
proof (cases "map_of nd name")
  case None
  then show ?thesis by (simp add: process_var_def)
next
  case (Some val)
  then have "(name, val) \<in> set nd" by (rule map_of_SomeD)
  with al have st: "settles nd val" by (auto simp: all_settle_def list_all_iff)
  show ?thesis
  proof (cases "findvar val")
    case None
    with Some show ?thesis by (simp add: process_var_def)
  next
    case fv: (Some m)
    obtain b e n where m: "m = (b, e, n)" by (cases m)
    from st fv m have nodollar: "CHR ''$'' \<notin> set (drop e val)"
      and np: "map_of nd n = None" "map_of nd (''PY_'' @ n) = None"
      by (simp_all add: settles_def)
    from resolve_not_deferred [OF np, of env dn name] show ?thesis
    proof (elim disjE exE)
      fix err assume "resolve env dn nd name n = Inl err"
      with Some fv m show ?thesis by (simp add: process_var_def)
    next
      fix item done1 assume r: "resolve env dn nd name n = Inr (Some item, done1)"
      from nodollar have "snd (substitute name val b e item (done1, nd)) = AList.delete name nd"
        by (simp add: substitute_def Let_def)
      then have "substitute name val b e item (done1, nd)
          = (fst (substitute name val b e item (done1, nd)), AList.delete name nd)"
        by (metis prod.collapse)
      with Some fv m r show ?thesis by (auto simp: process_var_def)
    qed
  qed
qed

lemma sweep_settles:
  "all_settle nd \<Longrightarrow>
     (\<exists>err. sweep env names (dn, nd) = Inl err)
     \<or> (\<exists>done1 nd1. sweep env names (dn, nd) = Inr (done1, nd1)
           \<and> fst ` set nd1 \<subseteq> fst ` set nd - set names)"
proof (induction names arbitrary: dn nd)
  case Nil
  then show ?case by simp
next
  case (Cons name names)
  from process_var_settles [OF Cons.prems, of env name dn] show ?case
  proof (elim disjE exE)
    fix err assume "process_var env name (dn, nd) = Inl err"
    then show ?thesis by simp
  next
    fix done1 assume p: "process_var env name (dn, nd) = Inr (done1, AList.delete name nd)"
    have keys: "fst ` set (AList.delete name nd) \<subseteq> fst ` set nd - {name}"
      using dom_delete_subset [of name nd] delete_notin_dom [of name nd] by blast
    from Cons.IH [OF all_settle_delete [OF Cons.prems], of done1 name]
    show ?thesis
    proof (elim disjE exE conjE)
      fix err assume "sweep env names (done1, AList.delete name nd) = Inl err"
      with p show ?thesis by simp
    next
      fix done2 nd2 assume s2: "sweep env names (done1, AList.delete name nd) = Inr (done2, nd2)"
        and k2: "fst ` set nd2 \<subseteq> fst ` set (AList.delete name nd) - set names"
      from keys_chain [OF k2 keys] have "fst ` set nd2 \<subseteq> fst ` set nd - set (name # names)"
        by simp
      moreover from p s2 have "sweep env (name # names) (dn, nd) = Inr (done2, nd2)" by simp
      ultimately show ?thesis by blast
    qed
  qed
qed

lemma interpolate_settles:
  assumes al: "all_settle nd" and cover: "set (map fst nd) \<subseteq> set (ord (map fst nd))"
  shows "\<exists>r. interpolate ord env (dn, nd) = Some r"
proof (cases "nd = []")
  case True
  then show ?thesis by (simp add: interpolate_done)
next
  case False
  from sweep_settles [OF al, of env "ord (map fst nd)" dn] show ?thesis
  proof (elim disjE exE conjE)
    fix err assume "sweep env (ord (map fst nd)) (dn, nd) = Inl err"
    with False have "interpolate ord env (dn, nd) = Some (Inl err)"
      by (intro interpolate_raises) simp_all
    then show ?thesis by blast
  next
    fix done1 nd1 assume s: "sweep env (ord (map fst nd)) (dn, nd) = Inr (done1, nd1)"
      and k: "fst ` set nd1 \<subseteq> fst ` set nd - set (ord (map fst nd))"
    from cover have "fst ` set nd \<subseteq> set (ord (map fst nd))" by simp
    with k have "fst ` set nd1 = {}" by (rule keys_empty)
    then have "nd1 = []" by simp
    with s False have "interpolate ord env (dn, nd) = interpolate ord env (done1, [])"
      by (intro interpolate_step) simp_all
    then show ?thesis by (simp add: interpolate_done)
  qed
qed

lemma scan_cycle:
  "scan_lines [''AA = $(BB)'', ''BB = $(AA)''] (Map.empty, [])
     = (Map.empty, [(''AA'', ''$(BB)''), (''BB'', ''$(AA)'')])"
  by (simp add: scan_line_def regex_defs strip_def char_class_defs)

lemma findvar_cycle:
  "findvar ''$(BB)'' = Some (0, 5, ''BB'')" "findvar ''$(AA)'' = Some (0, 5, ''AA'')"
  by (simp_all add: regex_defs char_class_defs)

lemma process_cycle:
  "process_var Map.empty ''AA'' (Map.empty, [(''AA'', ''$(BB)''), (''BB'', ''$(AA)'')])
     = Inr (Map.empty, [(''AA'', ''$(BB)''), (''BB'', ''$(AA)'')])"
  "process_var Map.empty ''BB'' (Map.empty, [(''AA'', ''$(BB)''), (''BB'', ''$(AA)'')])
     = Inr (Map.empty, [(''AA'', ''$(BB)''), (''BB'', ''$(AA)'')])"
  by (simp_all add: process_var_def resolve_def findvar_cycle)

lemma sweep_cycle:
  "sweep Map.empty [''AA'', ''BB''] (Map.empty, [(''AA'', ''$(BB)''), (''BB'', ''$(AA)'')])
     = Inr (Map.empty, [(''AA'', ''$(BB)''), (''BB'', ''$(AA)'')])"
  by (simp add: process_cycle)

lemma order_cycle:
  "insertion_order (map fst (snd (Map.empty :: dict, [(''AA'', ''$(BB)''), (''BB'', ''$(AA)'')])))
     = [''AA'', ''BB'']"
  by (simp add: insertion_order_def)

lemma sweep_cycle_stuck:
  "sweep Map.empty
     (insertion_order (map fst (snd (Map.empty :: dict, [(''AA'', ''$(BB)''), (''BB'', ''$(AA)'')]))))
     (Map.empty, [(''AA'', ''$(BB)''), (''BB'', ''$(AA)'')])
   = Inr (Map.empty, [(''AA'', ''$(BB)''), (''BB'', ''$(AA)'')])"
  by (simp only: order_cycle sweep_cycle)

lemma all_settle_example: "all_settle [(''AB'', ''$''), (''XX'', ''$(CC)'')]"
proof -
  have "findvar ''$(CC)'' = Some (0, 5, ''CC'')" by (simp add: regex_defs char_class_defs)
  then show ?thesis by (simp add: all_settle_def settles_def findvar_bogus)
qed

text \<open>The cycle in any order of iteration: no sweep changes the state.\<close>

lemma process_cycle_any:
  "process_var Map.empty name (Map.empty, [(''AA'', ''$(BB)''), (''BB'', ''$(AA)'')])
     = Inl (KeyError name)
   \<or> process_var Map.empty name (Map.empty, [(''AA'', ''$(BB)''), (''BB'', ''$(AA)'')])
     = Inr (Map.empty, [(''AA'', ''$(BB)''), (''BB'', ''$(AA)'')])"
proof (cases "name = ''AA'' \<or> name = ''BB''")
  case True
  then show ?thesis using process_cycle by auto
next
  case False
  then have "map_of [(''AA'', ''$(BB)''), (''BB'', ''$(AA)'')] name = None" by simp
  then show ?thesis by (simp add: process_var_def)
qed

lemma sweep_cycle_any:
  "sweep Map.empty names (Map.empty, [(''AA'', ''$(BB)''), (''BB'', ''$(AA)'')]) = Inr st1
   \<Longrightarrow> st1 = (Map.empty, [(''AA'', ''$(BB)''), (''BB'', ''$(AA)'')])"
proof (induction names)
  case Nil
  then show ?case by simp
next
  case (Cons name names)
  from process_cycle_any [of name] Cons show ?case by auto
qed

lemma cycle_any_order:
  "parse_makefile ord Map.empty [''AA = $(BB)'', ''BB = $(AA)''] Map.empty \<noteq> Some (Inr r)"
proof -
  let ?st = "(Map.empty :: dict, [(''AA'', ''$(BB)''), (''BB'', ''$(AA)'')])"
  have "interpolate ord Map.empty ?st \<noteq> Some (Inr r)" for r
  proof (cases "sweep Map.empty (ord (map fst (snd ?st))) ?st")
    case (Inl err)
    then have "interpolate ord Map.empty ?st = Some (Inl err)"
      by (intro interpolate_raises) simp_all
    then show ?thesis by simp
  next
    case (Inr st1)
    with sweep_cycle_any have "sweep Map.empty (ord (map fst (snd ?st))) ?st = Inr ?st" by blast
    then have "interpolate ord Map.empty ?st = None"
      by (intro interpolate_stuck) simp_all
    then show ?thesis by simp
  qed
  then have "interpolate ord Map.empty
      (scan_lines [''AA = $(BB)'', ''BB = $(AA)''] (Map.empty, [])) \<noteq> Some (Inr r)" for r
    unfolding scan_cycle .
  then show ?thesis
    unfolding parse_makefile_def by (auto split: option.splits sum.splits)
qed

section \<open>Claims on the termination of the sweep loop\<close>

text \<open>
  Claim C1 says that the sweep loop terminates for every input, because every sweep
  shrinks the pending set, also for two pending variables that reference each other.
  For \<open>AA = $(BB)\<close> and \<open>BB = $(AA)\<close> each variable is deferred on the other: the sweep
  returns the state it was given, in whatever order it takes the names, and the loop does
  not end.
\<close>

theorem sweep_termination_counterexample:
  "sweep Map.empty [''AA'', ''BB''] (Map.empty, [(''AA'', ''$(BB)''), (''BB'', ''$(AA)'')])
     = Inr (Map.empty, [(''AA'', ''$(BB)''), (''BB'', ''$(AA)'')])
   \<and> parse_makefile insertion_order Map.empty [''AA = $(BB)'', ''BB = $(AA)''] Map.empty = None"
proof -
  have "interpolate insertion_order Map.empty (Map.empty, [(''AA'', ''$(BB)''), (''BB'', ''$(AA)'')])
      = None"
    by (rule interpolate_stuck
        [of "(Map.empty, [(''AA'', ''$(BB)''), (''BB'', ''$(AA)'')])" Map.empty insertion_order,
         OF _ sweep_cycle_stuck]) simp
  then have "interpolate insertion_order Map.empty
      (scan_lines [''AA = $(BB)'', ''BB = $(AA)''] (Map.empty, [])) = None"
    by (simp only: scan_cycle)
  then have "parse_makefile insertion_order Map.empty [''AA = $(BB)'', ''BB = $(AA)''] Map.empty = None"
    unfolding parse_makefile_def by simp
  with sweep_cycle show ?thesis by simp
qed

text \<open>
  Claim C1 as amended. A sweep never adds a name to the pending set. The loop
  terminates (with a result or an exception) when every pending value settles, that is,
  has no reference or has no dollar sign after its reference and refers to a name that is
  not pending, also not with the prefix \<open>PY_\<close>: one sweep over all the pending names then
  empties the set. But a sweep need not shrink the pending set: when a sweep leaves the
  state as it was, as for two pending variables that reference each other, the loop does
  not terminate.
\<close>

theorem sweep_loop_progress:
  "(sweep env names st = Inr st1 \<longrightarrow> set (map fst (snd st1)) \<subseteq> set (map fst (snd st)))
   \<and> (all_settle notdone \<and> set (map fst notdone) \<subseteq> set (ord (map fst notdone)) \<longrightarrow>
        (\<exists>r. interpolate ord env (done, notdone) = Some r))
   \<and> (snd st \<noteq> [] \<and> sweep env (ord (map fst (snd st))) st = Inr st \<longrightarrow>
        interpolate ord env st = None)"
  using sweep_keys [of env names st st1] interpolate_settles [of notdone ord env "done"]
    interpolate_stuck [of st env ord]
  by blast

theorem sweep_loop_progress_witness:
  "set (map fst (snd (Map.empty :: dict, [(''AA'', ''$(BB)''), (''BB'', ''$(AA)'')])))
     \<subseteq> set (map fst (snd (Map.empty :: dict, [(''AA'', ''$(BB)''), (''BB'', ''$(AA)'')])))
   \<and> (\<exists>r. interpolate insertion_order Map.empty (Map.empty, [(''AB'', ''$''), (''XX'', ''$(CC)'')]) = Some r)
   \<and> interpolate insertion_order Map.empty (Map.empty, [(''AA'', ''$(BB)''), (''BB'', ''$(AA)'')]) = None"
  using sweep_loop_progress [of Map.empty
      "insertion_order (map fst (snd (Map.empty :: dict, [(''AA'', ''$(BB)''), (''BB'', ''$(AA)'')])))"
      "(Map.empty, [(''AA'', ''$(BB)''), (''BB'', ''$(AA)'')])"
      "(Map.empty, [(''AA'', ''$(BB)''), (''BB'', ''$(AA)'')])"
      "[(''AB'', ''$''), (''XX'', ''$(CC)'')]" insertion_order Map.empty]
    sweep_cycle_stuck all_settle_example
  by (simp add: insertion_order_def)

lemma ref_name_words: "ref_name n \<Longrightarrow> list_all is_word n"
  by (auto simp: ref_name_def is_word_def split: list.splits)

lemma findvar_decomp:
  assumes "findvar s = Some (b, e, n)"
  shows "\<exists>op cl. (op, cl) \<in> {(CHR ''('', CHR '')''), (CHR ''{'', CHR ''}'')}
     \<and> ref_name n \<and> s = take b s @ (CHR ''$'' # op # n @ [cl]) @ drop e s"
proof -
  from assms obtain op cl where sv: "search_var op cl s = Some (b, e, n)"
    and ops: "(op = CHR ''('' \<and> cl = CHR '')'') \<or> (op = CHR ''{'' \<and> cl = CHR ''}'')"
    by (auto simp: findvar_def findvar1_rx_search_def findvar2_rx_search_def split: option.splits)
  have rn: "ref_name n" and s: "s = take b s @ CHR ''$'' # op # n @ cl # drop e s"
    using search_var_sound [OF sv] by blast+
  from s have "s = take b s @ (CHR ''$'' # op # n @ [cl]) @ drop e s" by simp
  with ops rn show ?thesis by blast
qed

lemma tokens_apart:
  assumes eq: "pre @ (CHR ''$'' # r) @ post = pre' @ (CHR ''$'' # m) @ post'"
    and r: "CHR ''$'' \<notin> set r" and m: "CHR ''$'' \<notin> set m"
  shows "(\<exists>x. pre = pre' @ (CHR ''$'' # m) @ x \<and> post' = x @ (CHR ''$'' # r) @ post)
    \<or> (\<exists>y. pre' = pre @ (CHR ''$'' # r) @ y \<and> post = y @ (CHR ''$'' # m) @ post')
    \<or> (pre = pre' \<and> r @ post = m @ post')"
proof -
  from eq obtain us where
    "(pre = pre' @ us \<and> us @ (CHR ''$'' # r) @ post = (CHR ''$'' # m) @ post')
     \<or> (pre @ us = pre' \<and> (CHR ''$'' # r) @ post = us @ (CHR ''$'' # m) @ post')"
    unfolding append_eq_append_conv2 by blast
  then show ?thesis
  proof
    assume A: "pre = pre' @ us \<and> us @ (CHR ''$'' # r) @ post = (CHR ''$'' # m) @ post'"
    show ?thesis
    proof (cases us)
      case Nil
      with A show ?thesis by simp
    next
      case (Cons u us')
      with A have u: "u = CHR ''$''" and t: "us' @ (CHR ''$'' # r @ post) = m @ post'" by simp_all
      from t obtain ws where
        "(us' = m @ ws \<and> ws @ (CHR ''$'' # r @ post) = post')
         \<or> (us' @ ws = m \<and> CHR ''$'' # r @ post = ws @ post')"
        unfolding append_eq_append_conv2 by blast
      then show ?thesis
      proof
        assume "us' = m @ ws \<and> ws @ (CHR ''$'' # r @ post) = post'"
        with A Cons u show ?thesis by auto
      next
        assume B: "us' @ ws = m \<and> CHR ''$'' # r @ post = ws @ post'"
        show ?thesis
        proof (cases ws)
          case Nil
          with A B Cons u show ?thesis by auto
        next
          case (Cons w ws')
          with B have "w = CHR ''$''" and "w \<in> set m" by auto
          with m show ?thesis by simp
        qed
      qed
    qed
  next
    assume A: "pre @ us = pre' \<and> (CHR ''$'' # r) @ post = us @ (CHR ''$'' # m) @ post'"
    show ?thesis
    proof (cases us)
      case Nil
      with A show ?thesis by simp
    next
      case (Cons u us')
      with A have u: "u = CHR ''$''" and t: "r @ post = us' @ (CHR ''$'' # m @ post')" by simp_all
      from t obtain ws where
        "(r = us' @ ws \<and> ws @ post = CHR ''$'' # m @ post')
         \<or> (r @ ws = us' \<and> post = ws @ (CHR ''$'' # m @ post'))"
        unfolding append_eq_append_conv2 by blast
      then show ?thesis
      proof
        assume B: "r = us' @ ws \<and> ws @ post = CHR ''$'' # m @ post'"
        show ?thesis
        proof (cases ws)
          case Nil
          with A B Cons u show ?thesis by auto
        next
          case (Cons w ws')
          with B have "w = CHR ''$''" and "w \<in> set r" by auto
          with r show ?thesis by simp
        qed
      next
        assume "r @ ws = us' \<and> post = ws @ (CHR ''$'' # m @ post')"
        with A Cons u show ?thesis by auto
      qed
    qed
  qed
qed

lemma not_word_brackets:
  "\<not> is_word (CHR '')'')" "\<not> is_word (CHR ''}'')" "\<not> is_word (CHR ''$'')"
  by (simp_all add: char_class_defs)

lemma ref_name_no_dollar: "ref_name n \<Longrightarrow> CHR ''$'' \<notin> set n"
  using ref_name_words [of n] not_word_brackets(3) by (auto simp: list_all_iff)

lemma same_start_same_name:
  assumes "n @ cl # post = m @ cl' # post'"
    and "list_all is_word n" "list_all is_word m" "\<not> is_word cl" "\<not> is_word cl'"
  shows "n = m"
proof -
  have "takeWhile is_word (n @ cl # post) = n" using assms(2,4) by (rule takeWhile_run)
  moreover have "takeWhile is_word (m @ cl' # post') = m" using assms(3,5) by (rule takeWhile_run)
  ultimately show ?thesis using assms(1) by simp
qed

lemma has_referenceI:
  assumes "ref_name n"
    and "(op, cl) \<in> {(CHR ''('', CHR '')''), (CHR ''{'', CHR ''}'')}"
    and "s = pre @ (CHR ''$'' # op # n @ [cl]) @ post"
  shows "has_reference s n"
  using assms unfolding has_reference_def by auto

lemma has_referenceE:
  assumes "has_reference s n"
  obtains op cl pre post where "ref_name n"
    and "(op, cl) \<in> {(CHR ''('', CHR '')''), (CHR ''{'', CHR ''}'')}"
    and "s = pre @ (CHR ''$'' # op # n @ [cl]) @ post"
  using assms unfolding has_reference_def by auto

lemma reference_persists:
  assumes ref: "has_reference s n" and fv: "findvar s = Some (b, e, m)" and neq: "m \<noteq> n"
  shows "has_reference (take b s @ v @ drop e s) n"
proof -
  from ref obtain op cl pre post where rn: "ref_name n"
    and oc: "(op, cl) \<in> {(CHR ''('', CHR '')''), (CHR ''{'', CHR ''}'')}"
    and s1: "s = pre @ (CHR ''$'' # op # n @ [cl]) @ post"
    by (rule has_referenceE)
  from findvar_decomp [OF fv] obtain op' cl' where
    oc': "(op', cl') \<in> {(CHR ''('', CHR '')''), (CHR ''{'', CHR ''}'')}"
    and rm: "ref_name m"
    and s2: "s = take b s @ (CHR ''$'' # op' # m @ [cl']) @ drop e s"
    by blast
  have nd1: "CHR ''$'' \<notin> set (op # n @ [cl])"
    using oc ref_name_no_dollar [OF rn] by auto
  have nd2: "CHR ''$'' \<notin> set (op' # m @ [cl'])"
    using oc' ref_name_no_dollar [OF rm] by auto
  have "pre @ (CHR ''$'' # (op # n @ [cl])) @ post
      = take b s @ (CHR ''$'' # (op' # m @ [cl'])) @ drop e s"
    by (rule trans [OF s1 [symmetric] s2])
  from tokens_apart [OF this nd1 nd2] show ?thesis
  proof (elim disjE exE conjE)
    fix x assume "pre = take b s @ (CHR ''$'' # op' # m @ [cl']) @ x"
      and "drop e s = x @ (CHR ''$'' # op # n @ [cl]) @ post"
    then have "take b s @ v @ drop e s = (take b s @ v @ x) @ (CHR ''$'' # op # n @ [cl]) @ post"
      by simp
    with rn oc show ?thesis by (rule has_referenceI)
  next
    fix y assume "take b s = pre @ (CHR ''$'' # op # n @ [cl]) @ y"
    then have "take b s @ v @ drop e s
        = pre @ (CHR ''$'' # op # n @ [cl]) @ (y @ v @ drop e s)"
      by simp
    with rn oc show ?thesis by (rule has_referenceI)
  next
    assume "(op # n @ [cl]) @ post = (op' # m @ [cl']) @ drop e s"
    then have eq': "n @ cl # post = m @ cl' # drop e s" by simp
    have ncl: "\<not> is_word cl" and ncl': "\<not> is_word cl'"
      using oc oc' not_word_brackets by auto
    have "n = m"
      by (rule same_start_same_name [OF eq' ref_name_words [OF rn] ref_name_words [OF rm] ncl ncl'])
    with neq show ?thesis by simp
  qed
qed

lemma expand_never_returns:
  assumes ret: "expand_makefile_vars s vars = Some y"
    and ref: "has_reference s n" and absent: "vars n = None"
  shows "y = Inl TypeError"
proof -
  have "has_reference s n \<and> vars n = None \<longrightarrow> y = Inl TypeError"
  proof (rule expand_makefile_vars.raw_induct
      [where P = "\<lambda>s vars y. has_reference s n \<and> vars n = None \<longrightarrow> y = Inl TypeError",
       OF _ ret])
    fix f s vars y
    assume IH: "\<And>s vars y. f s vars = Some y \<Longrightarrow>
        has_reference s n \<and> vars n = None \<longrightarrow> y = Inl TypeError"
      and eq: "(case findvar s of None \<Rightarrow> Some (Inr s)
        | Some (b, e, n) \<Rightarrow>
            (case vars n of None \<Rightarrow> Some (Inl TypeError)
             | Some (PInt i) \<Rightarrow> Some (Inl TypeError)
             | Some (PStr v) \<Rightarrow> f (take b s @ v @ drop e s) vars)) = Some y"
    show "has_reference s n \<and> vars n = None \<longrightarrow> y = Inl TypeError"
    proof
      assume h: "has_reference s n \<and> vars n = None"
      then have "has_reference s n" by simp
      then have "findvar s \<noteq> None" by (rule findvar_complete)
      then obtain b e m where fv: "findvar s = Some (b, e, m)" by (cases "findvar s") auto
      show "y = Inl TypeError"
      proof (cases "vars m")
        case None
        with eq fv show ?thesis by simp
      next
        case (Some w)
        show ?thesis
        proof (cases w)
          case (PInt i)
          with eq fv Some show ?thesis by simp
        next
          case (PStr v)
          with eq fv Some have call: "f (take b s @ v @ drop e s) vars = Some y" by simp
          from Some h have "m \<noteq> n" by auto
          moreover from h have "has_reference s n" by simp
          ultimately have "has_reference (take b s @ v @ drop e s) n"
            using fv by (intro reference_persists)
          with IH [OF call] h show ?thesis by simp
        qed
      qed
    qed
  qed
  with ref absent show ?thesis by simp
qed

lemma dollars_append: "dollars (xs @ ys) = dollars xs + dollars ys"
  by (simp add: dollars_def)

lemma dollars_none: "CHR ''$'' \<notin> set v \<Longrightarrow> dollars v = 0"
  by (induction v) (auto simp: dollars_def)

lemma substitution_fewer_dollars:
  assumes fv: "findvar s = Some (b, e, m)" and v: "CHR ''$'' \<notin> set v"
  shows "dollars (take b s @ v @ drop e s) < dollars s"
proof -
  from findvar_decomp [OF fv] obtain op cl where
    s2: "s = take b s @ (CHR ''$'' # op # m @ [cl]) @ drop e s"
    by blast
  have "dollars s = dollars (take b s @ (CHR ''$'' # op # m @ [cl]) @ drop e s)"
    by (rule arg_cong [where f = dollars, OF s2])
  also have "\<dots> = dollars (take b s) + dollars (CHR ''$'' # op # m @ [cl]) + dollars (drop e s)"
    by (simp only: dollars_append add.assoc)
  finally have "dollars s
      = dollars (take b s) + dollars (CHR ''$'' # op # m @ [cl]) + dollars (drop e s)" .
  moreover have "0 < dollars (CHR ''$'' # op # m @ [cl])" by (simp add: dollars_def)
  moreover have "dollars (take b s @ v @ drop e s) = dollars (take b s) + dollars (drop e s)"
    using v by (simp add: dollars_append dollars_none)
  ultimately show ?thesis by simp
qed

lemma expand_terminates:
  assumes df: "dollar_free vars"
  shows "\<exists>y. expand_makefile_vars s vars = Some y"
proof (induction "dollars s" arbitrary: s rule: less_induct)
  case less
  show ?case
  proof (cases "findvar s")
    case None
    then show ?thesis by (subst expand_makefile_vars.simps) simp
  next
    case (Some t)
    obtain b e m where t: "t = (b, e, m)" by (cases t)
    show ?thesis
    proof (cases "vars m")
      case None
      with Some t show ?thesis by (subst expand_makefile_vars.simps) simp
    next
      case vm: (Some w)
      show ?thesis
      proof (cases w)
        case (PInt i)
        with Some t vm show ?thesis by (subst expand_makefile_vars.simps) simp
      next
        case (PStr v)
        with df vm have "CHR ''$'' \<notin> set v" by (auto simp: dollar_free_def)
        with Some t have "dollars (take b s @ v @ drop e s) < dollars s"
          by (intro substitution_fewer_dollars) simp_all
        then have "\<exists>y. expand_makefile_vars (take b s @ v @ drop e s) vars = Some y"
          by (rule less.hyps)
        with Some t vm PStr show ?thesis by (subst expand_makefile_vars.simps) simp
      qed
    qed
  qed
qed

lemma expand_stuck:
  assumes fv: "findvar s = Some (b, e, m)" and vm: "vars m = Some (PStr v)"
    and same: "take b s @ v @ drop e s = s"
  shows "expand_makefile_vars s vars = None"
proof (cases "expand_makefile_vars s vars")
  case (Some y)
  have "\<not> (s = s \<and> vars = vars)"
  proof (rule expand_makefile_vars.raw_induct
      [where P = "\<lambda>s' vars' y. \<not> (s' = s \<and> vars' = vars)", OF _ Some])
    fix f s' vars' y'
    assume IH: "\<And>s' vars' y. f s' vars' = Some y \<Longrightarrow> \<not> (s' = s \<and> vars' = vars)"
      and eq: "(case findvar s' of None \<Rightarrow> Some (Inr s')
        | Some (b, e, n) \<Rightarrow>
            (case vars' n of None \<Rightarrow> Some (Inl TypeError)
             | Some (PInt i) \<Rightarrow> Some (Inl TypeError)
             | Some (PStr v) \<Rightarrow> f (take b s' @ v @ drop e s') vars')) = Some y'"
    show "\<not> (s' = s \<and> vars' = vars)"
    proof
      assume "s' = s \<and> vars' = vars"
      with eq fv vm same have "f s vars = Some y'" by simp
      with IH show False by blast
    qed
  qed
  then show ?thesis by simp
qed simp

lemma has_reference_example: "has_reference ''$(AA)$(BB)'' ''BB''"
proof (rule has_referenceI [where op = "CHR ''(''" and cl = "CHR '')''" and pre = "''$(AA)''" and post = "[]"])
  show "ref_name ''BB''" by (simp add: ref_name_def char_class_defs)
qed simp_all

lemma findvar_AA_BB: "findvar ''$(AA)$(BB)'' = Some (0, 5, ''AA'')"
  by (simp add: regex_defs char_class_defs)

lemma parse_escaped:
  "parse_makefile insertion_order Map.empty [''AA = $$(AA)''] Map.empty
     = Some (Inr [''AA'' \<mapsto> PStr ''$(AA)''])"
proof -
  have "scan_lines [''AA = $$(AA)''] (Map.empty, []) = ([''AA'' \<mapsto> PStr ''$(AA)''], [])"
    by (simp add: scan_line_def regex_defs int_defs char_class_defs)
  then have "interpolate insertion_order Map.empty (scan_lines [''AA = $$(AA)''] (Map.empty, []))
      = Some (Inr [''AA'' \<mapsto> PStr ''$(AA)''])"
    by (simp only: interpolate_done)
  then show ?thesis
    unfolding parse_makefile_def
    by (auto simp: map_add_def strip_value_def strip_def char_class_defs)
qed

section \<open>Claims on expand_makefile_vars\<close>

text \<open>
  The function asks for a mapping whose values hold no further references. Outside
  that, the loop need not end: with \<open>AA\<close> mapped to \<open>$(AA)\<close> (what \<open>parse_makefile\<close> returns
  for the line \<open>AA = $$(AA)\<close>) and no \<open>BB\<close>, the string \<open>$(AA)$(BB)\<close> is rewritten to
  itself for ever.
\<close>

lemma expand_self_reference_loops:
  "has_reference ''$(AA)$(BB)'' ''BB''
   \<and> [''AA'' \<mapsto> PStr ''$(AA)''] ''BB'' = None
   \<and> expand_makefile_vars ''$(AA)$(BB)'' [''AA'' \<mapsto> PStr ''$(AA)''] = None
   \<and> parse_makefile insertion_order Map.empty [''AA = $$(AA)''] Map.empty
       = Some (Inr [''AA'' \<mapsto> PStr ''$(AA)''])"
proof -
  have "expand_makefile_vars ''$(AA)$(BB)'' [''AA'' \<mapsto> PStr ''$(AA)''] = None"
    by (rule expand_stuck [OF findvar_AA_BB, where v = "''$(AA)''"]) simp_all
  with has_reference_example parse_escaped show ?thesis by simp
qed

lemma has_reference_single: "has_reference ''$(BB)'' ''BB''"
proof (rule has_referenceI [where op = "CHR ''(''" and cl = "CHR '')''" and pre = "[]" and post = "[]"])
  show "ref_name ''BB''" by (simp add: ref_name_def char_class_defs)
qed simp_all

lemma dollar_free_empty: "dollar_free Map.empty"
  by (simp add: dollar_free_def)

text \<open>
  Claim C4. For every string with a reference \<open>$(NAME)\<close> or \<open>${NAME}\<close> whose NAME the
  mapping lacks, \<open>expand_makefile_vars\<close> fails instead of substituting the empty string:
  for any mapping it never returns a string, and for a mapping that is resolved as the
  function requires (its string values hold no dollar sign) it raises, with the
  \<open>TypeError\<close> of \<open>str + None\<close>. In contrast, a step of the sweep of \<open>parse_makefile\<close> on a
  pending value whose first reference names a variable found nowhere stores the empty
  string for that variable and substitutes it.
\<close>

theorem expand_absent_key:
  assumes "has_reference s n" and "vars n = None"
  shows "(\<forall>r. expand_makefile_vars s vars \<noteq> Some (Inr r))
    \<and> (dollar_free vars \<longrightarrow> expand_makefile_vars s vars = Some (Inl TypeError))
    \<and> (map_of notdone name = Some value \<and> findvar value = Some (b, e, n)
         \<and> done n = None \<and> map_of notdone n = None \<and> env n = None
         \<and> n \<notin> set renamed_variables \<longrightarrow>
       process_var env name (done, notdone)
         = Inr (substitute name value b e [] (done(n \<mapsto> PStr []), notdone)))"
proof (intro conjI allI impI)
  fix r show "expand_makefile_vars s vars \<noteq> Some (Inr r)"
    using expand_never_returns [of s vars "Inr r" n] assms by fastforce
next
  assume "dollar_free vars"
  then obtain y where "expand_makefile_vars s vars = Some y"
    using expand_terminates by blast
  with expand_never_returns [of s vars y n] assms
  show "expand_makefile_vars s vars = Some (Inl TypeError)"
    by simp
next
  assume "map_of notdone name = Some value \<and> findvar value = Some (b, e, n)
         \<and> done n = None \<and> map_of notdone n = None \<and> env n = None
         \<and> n \<notin> set renamed_variables"
  then show "process_var env name (done, notdone)
         = Inr (substitute name value b e [] (done(n \<mapsto> PStr []), notdone))"
    by (simp add: process_var_def resolve_def)
qed

theorem expand_absent_key_witness:
  "has_reference ''$(AA)$(BB)'' ''BB''
   \<and> [''AA'' \<mapsto> PStr ''x''] ''BB'' = None
   \<and> dollar_free [''AA'' \<mapsto> PStr ''x'']
   \<and> expand_makefile_vars ''$(AA)$(BB)'' [''AA'' \<mapsto> PStr ''x''] = Some (Inl TypeError)
   \<and> expand_makefile_vars ''$(BB)'' Map.empty = Some (Inl TypeError)
   \<and> process_var Map.empty ''XX'' (Map.empty, [(''XX'', ''$(BB)'')])
       = Inr (substitute ''XX'' ''$(BB)'' 0 5 [] ([''BB'' \<mapsto> PStr []], [(''XX'', ''$(BB)'')]))
   \<and> substitute ''XX'' ''$(BB)'' 0 5 [] ([''BB'' \<mapsto> PStr []], [(''XX'', ''$(BB)'')])
       = ([''BB'' \<mapsto> PStr [], ''XX'' \<mapsto> PStr []], [])"
proof -
  have df: "dollar_free [''AA'' \<mapsto> PStr ''x'']"
    by (auto simp: dollar_free_def split: if_splits)
  have ab: "[''AA'' \<mapsto> PStr ''x''] ''BB'' = None" by simp
  have ref: "findvar ''$(BB)'' = Some (0, 5, ''BB'')" by (rule findvar_cycle(1))
  from expand_absent_key [of "''$(AA)$(BB)''" "''BB''" "[''AA'' \<mapsto> PStr ''x'']"
      "[(''XX'', ''$(BB)'')]" "''XX''" "''$(BB)''" 0 5 Map.empty Map.empty]
    df has_reference_example ab ref
  have 1: "expand_makefile_vars ''$(AA)$(BB)'' [''AA'' \<mapsto> PStr ''x''] = Some (Inl TypeError)"
    and 2: "process_var Map.empty ''XX'' (Map.empty, [(''XX'', ''$(BB)'')])
       = Inr (substitute ''XX'' ''$(BB)'' 0 5 [] ([''BB'' \<mapsto> PStr []], [(''XX'', ''$(BB)'')]))"
    by (simp_all add: renamed_variables_def)
  from expand_absent_key [of "''$(BB)''" "''BB''" Map.empty] has_reference_single dollar_free_empty
  have 3: "expand_makefile_vars ''$(BB)'' Map.empty = Some (Inl TypeError)" by simp
  have 4: "substitute ''XX'' ''$(BB)'' 0 5 [] ([''BB'' \<mapsto> PStr []], [(''XX'', ''$(BB)'')])
       = ([''BB'' \<mapsto> PStr [], ''XX'' \<mapsto> PStr []], [])"
    by (simp add: substitute_def Let_def py_int_empty strip_O2 is_py_renamed_def)
  from 1 2 3 4 df ab has_reference_example show ?thesis by simp
qed

lemma get_config_vars_hit:
  "config_vars st = Some (r, d) \<Longrightarrow> get_config_vars q [] st = (Inr (RDict r), st)"
  by (simp add: get_config_vars_def return_vars_def)

lemma get_config_vars_sets:
  assumes "get_config_vars p [] st0 = (Inr (RDict r), st1)"
  shows "\<exists>d. config_vars st1 = Some (r, d)"
proof (cases "config_vars st0")
  case None
  with assms show ?thesis
    by (auto simp: get_config_vars_def return_vars_def Let_def
        split: option.splits sum.splits)
next
  case (Some obj)
  with assms show ?thesis
    by (cases obj) (auto simp: get_config_vars_def return_vars_def)
qed

section \<open>Claims on get_config_vars\<close>

text \<open>
  Claim C9. After a call of \<open>get_config_vars()\<close> with no arguments has returned, every later
  call with no arguments returns the same dictionary object and leaves the state, and so
  the contents of the object, as they are, whatever the configuration files and the
  platform would give now: the initialisation is not run again.
\<close>

theorem get_config_vars_memoized:
  assumes "get_config_vars p [] st0 = (Inr (RDict r), st1)"
  shows "get_config_vars q [] st1 = (Inr (RDict r), st1)
    \<and> ((\<lambda>s. snd (get_config_vars q [] s)) ^^ n) st1 = st1"
proof -
  from get_config_vars_sets [OF assms] obtain d where "config_vars st1 = Some (r, d)" ..
  then have hit: "get_config_vars q [] st1 = (Inr (RDict r), st1)"
    by (rule get_config_vars_hit)
  have "((\<lambda>s. snd (get_config_vars q [] s)) ^^ n) st1 = st1"
    by (induction n) (simp_all add: hit)
  with hit show ?thesis by simp
qed

theorem get_config_vars_memoized_witness:
  "get_config_vars unix_like [] \<lparr>config_vars = None, fresh = 0\<rparr>
     = (Inr (RDict 0),
        \<lparr>config_vars = Some (0, [''CC'' \<mapsto> PStr ''gcc'', ''prefix'' \<mapsto> PStr ''/usr'',
                                  ''exec_prefix'' \<mapsto> PStr ''/usr'']), fresh = Suc 0\<rparr>)
   \<and> get_config_vars broken_install []
        \<lparr>config_vars = Some (0, [''CC'' \<mapsto> PStr ''gcc'', ''prefix'' \<mapsto> PStr ''/usr'',
                                  ''exec_prefix'' \<mapsto> PStr ''/usr'']), fresh = Suc 0\<rparr>
     = (Inr (RDict 0),
        \<lparr>config_vars = Some (0, [''CC'' \<mapsto> PStr ''gcc'', ''prefix'' \<mapsto> PStr ''/usr'',
                                  ''exec_prefix'' \<mapsto> PStr ''/usr'']), fresh = Suc 0\<rparr>)"
proof -
  have first: "get_config_vars unix_like [] \<lparr>config_vars = None, fresh = 0\<rparr>
     = (Inr (RDict 0),
        \<lparr>config_vars = Some (0, [''CC'' \<mapsto> PStr ''gcc'', ''prefix'' \<mapsto> PStr ''/usr'',
                                  ''exec_prefix'' \<mapsto> PStr ''/usr'']), fresh = Suc 0\<rparr>)"
    by (simp add: get_config_vars_def unix_like_def return_vars_def)
  from get_config_vars_memoized [OF first, of broken_install 0] first show ?thesis by simp
qed

end
